theory Spec2Isabelle
  imports Complex_Main "HOL-Library.Option_ord"
begin

section \<open>Strings\<close>

text \<open>
  A Python \<open>str\<close> is a sequence of Unicode code points; a code point is a natural number.
  \<open>asc\<close> writes an ASCII literal.
\<close>

type_synonym pystr = "nat list"

definition asc :: "string \<Rightarrow> pystr" where
  "asc s = map of_char s"

text \<open>
  The classification of the code points beyond ASCII (\<open>str.isspace\<close>, \<open>str.isalnum\<close>)
  is a table of the Python runtime, not of this repository: it is a parameter.
  The ASCII part is written out.
\<close>

record unicode_db =
  uni_space :: "nat \<Rightarrow> bool"
  uni_alnum :: "nat \<Rightarrow> bool"

definition isspace :: "unicode_db \<Rightarrow> nat \<Rightarrow> bool" where
  "isspace U c =
     (if c < 128 then c \<in> {9, 10, 11, 12, 13, 28, 29, 30, 31, 32} else uni_space U c)"

definition is_word :: "unicode_db \<Rightarrow> nat \<Rightarrow> bool" where
  "is_word U c =
     (if c < 128
      then (48 \<le> c \<and> c \<le> 57) \<or> (65 \<le> c \<and> c \<le> 90) \<or> (97 \<le> c \<and> c \<le> 122) \<or> c = 95
      else uni_alnum U c)"

text \<open>\<open>str.strip()\<close>, \<open>str.replace(' ', '_')\<close> and \<open>re.sub(r'(?u)[^-\w.]', '', s)\<close>.\<close>

definition strip :: "unicode_db \<Rightarrow> pystr \<Rightarrow> pystr" where
  "strip U s = rev (dropWhile (isspace U) (rev (dropWhile (isspace U) s)))"

definition replace_space :: "pystr \<Rightarrow> pystr" where
  "replace_space s = map (\<lambda>c. if c = 32 then 95 else c) s"

definition re_sub_delete :: "unicode_db \<Rightarrow> pystr \<Rightarrow> pystr" where
  "re_sub_delete U s = filter (\<lambda>c. c = 45 \<or> is_word U c \<or> c = 46) s"

datatype error =
  ValueError | FileNotFoundError | FileExistsError | IsADirectoryError
  | JSONDecodeError | UnpicklingError | KeyError | TypeError | AttributeError
  | IndexError | RuntimeError

definition sanitize_file_name :: "unicode_db \<Rightarrow> pystr \<Rightarrow> error + pystr" where
  "sanitize_file_name U name =
     (let sanitized = replace_space (strip U name);
          sanitized = re_sub_delete U sanitized
      in if sanitized \<in> {asc '''', asc ''.'', asc ''..''} then Inl ValueError
         else Inr sanitized)"


text \<open>A table for concrete inputs: nothing beyond ASCII is white space, everything is a letter.\<close>

definition U0 :: unicode_db where
  "U0 = \<lparr>uni_space = (\<lambda>_. False), uni_alnum = (\<lambda>_. True)\<rparr>"

lemma strip_decomp:
  "\<exists>l r. name = l @ strip U name @ r \<and> list_all (isspace U) l \<and> list_all (isspace U) r"
proof -
  define l where "l = takeWhile (isspace U) name"
  define m where "m = dropWhile (isspace U) name"
  define r where "r = rev (takeWhile (isspace U) (rev m))"
  have 1: "name = l @ m" by (simp add: l_def m_def)
  have "rev m = takeWhile (isspace U) (rev m) @ dropWhile (isspace U) (rev m)" by simp
  then have "rev (rev m) = rev (takeWhile (isspace U) (rev m) @ dropWhile (isspace U) (rev m))"
    by simp
  then have 2: "m = strip U name @ r"
    unfolding strip_def r_def m_def rev_append rev_rev_ident .
  have 3: "list_all (isspace U) l"
    unfolding l_def list_all_iff by (auto dest: set_takeWhileD)
  have 4: "list_all (isspace U) r"
    unfolding r_def list_all_iff by (auto dest: set_takeWhileD)
  from 1 2 3 4 show ?thesis by auto
qed

lemma strip_ends:
  "strip U name = [] \<or> (\<not> isspace U (hd (strip U name)) \<and> \<not> isspace U (last (strip U name)))"
proof (cases "strip U name = []")
  case True then show ?thesis by simp
next
  case False
  define m where "m = dropWhile (isspace U) name"
  define d where "d = dropWhile (isspace U) (rev m)"
  have s: "strip U name = rev d" by (simp add: strip_def d_def m_def)
  with False have dne: "d \<noteq> []" by simp
  have l: "\<not> isspace U (hd d)" unfolding d_def using dne hd_dropWhile d_def by blast
  have mne: "m \<noteq> []" using dne d_def by auto
  have "last d = last (rev m)" using dne unfolding d_def
    by (metis last_appendR takeWhile_dropWhile_id)
  then have "last d = hd m" using mne by (simp add: last_rev)
  moreover have "\<not> isspace U (hd m)" unfolding m_def using mne hd_dropWhile m_def by blast
  ultimately have "\<not> isspace U (last d)" by simp
  with l s dne show ?thesis by (simp add: hd_rev last_rev)
qed

text \<open>
  C4. For every input string \<open>name\<close>: \<open>name\<close> is a run of white space, a middle part \<open>t\<close>
  that neither starts nor ends with white space, and a run of white space; with \<open>s\<close> the
  middle part after each space is replaced by an underscore and every character that is
  not a word character, hyphen or dot is deleted, \<open>sanitize_file_name\<close> raises exactly
  when \<open>s\<close> is empty, \<open>"."\<close> or \<open>".."\<close> and returns \<open>s\<close> otherwise; so no returned name is
  one of the three.
\<close>

theorem sanitize_file_name_spec:
  "\<exists>l t r. name = l @ t @ r \<and> list_all (isspace U) l \<and> list_all (isspace U) r \<and>
     (t = [] \<or> (\<not> isspace U (hd t) \<and> \<not> isspace U (last t))) \<and>
     (let s = filter (\<lambda>c. is_word U c \<or> c = 45 \<or> c = 46)
                (map (\<lambda>c. if c = 32 then 95 else c) t)
      in sanitize_file_name U name =
           (if s = [] \<or> s = [46] \<or> s = [46, 46] then Inl ValueError else Inr s)) \<and>
     (\<forall>s. sanitize_file_name U name = Inr s \<longrightarrow> s \<notin> {asc '''', asc ''.'', asc ''..''})"
proof -
  obtain l r where d: "name = l @ strip U name @ r" "list_all (isspace U) l"
      "list_all (isspace U) r"
    using strip_decomp by blast
  have f: "(\<lambda>c. c = 45 \<or> is_word U c \<or> c = 46) = (\<lambda>c. is_word U c \<or> c = 45 \<or> c = 46)"
    by auto
  have e: "let s = filter (\<lambda>c. is_word U c \<or> c = 45 \<or> c = 46)
                     (map (\<lambda>c. if c = 32 then 95 else c) (strip U name))
      in sanitize_file_name U name =
           (if s = [] \<or> s = [46] \<or> s = [46, 46] then Inl ValueError else Inr s)"
    by (simp add: sanitize_file_name_def replace_space_def re_sub_delete_def asc_def Let_def f)
  have n: "\<forall>s. sanitize_file_name U name = Inr s \<longrightarrow> s \<notin> {asc '''', asc ''.'', asc ''..''}"
    by (auto simp: sanitize_file_name_def Let_def split: if_splits)
  show ?thesis
    apply (rule exI[of _ l], rule exI[of _ "strip U name"], rule exI[of _ r])
    using d strip_ends[of U name] e n by blast
qed

theorem sanitize_file_name_spec_witness:
  "sanitize_file_name U0 (asc ''  a b/c.d  '') = Inr (asc ''a_bc.d'') \<and>
   asc ''a_bc.d'' \<notin> {asc '''', asc ''.'', asc ''..''} \<and>
   sanitize_file_name U0 (asc '' /. '') = Inl ValueError"
  using sanitize_file_name_spec [of "asc ''  a b/c.d  ''" U0]
  by (simp add: sanitize_file_name_def strip_def replace_space_def re_sub_delete_def
      isspace_def is_word_def asc_def U0_def)

section \<open>Files\<close>

text \<open>
  What \<open>json.dump\<close> writes and \<open>json.load\<close> returns: a JSON value. The text codec
  is the \<open>json\<close> library's.
\<close>

datatype json =
  JNull | JBool bool | JInt int | JFloat real | JStr pystr
  | JList "json list" | JDict "(pystr \<times> json) list"

text \<open>
  A tensor as far as this repository looks at it: a shape, the name of its element type,
  and the elements, which belong to the tensor library.
\<close>

record 'a tensor =
  shape :: "nat list"
  dtype :: pystr
  payload :: 'a

datatype 'a content = JsonFile json | TorchFile "'a tensor" | RawFile

text \<open>
  The file system: the directories and the regular files, by path. \<open>RawFile\<close> is a file
  that is neither JSON text nor a \<open>torch.save\<close> container.
\<close>

record 'a filesystem =
  dirs :: "pystr set"
  files :: "pystr \<rightharpoonup> 'a content"

text \<open>\<open>os.path.join(a, p)\<close> on POSIX.\<close>

definition join :: "pystr \<Rightarrow> pystr \<Rightarrow> pystr" where
  "join a p =
     (if p \<noteq> [] \<and> hd p = 47 then p
      else if a = [] \<or> last a = 47 then a @ p
      else a @ [47] @ p)"

text \<open>
  \<open>os.makedirs(d, exist_ok=True)\<close>: the empty path and a path that is a regular file
  raise; an existing directory is accepted.
\<close>

definition makedirs :: "pystr \<Rightarrow> 'a filesystem \<Rightarrow> (error + unit) \<times> 'a filesystem" where
  "makedirs d fs =
     (if d = [] then (Inl FileNotFoundError, fs)
      else if d \<in> dom (files fs) then (Inl FileExistsError, fs)
      else (Inr (), fs\<lparr>dirs := insert d (dirs fs)\<rparr>))"

text \<open>\<open>open(path, 'w')\<close> followed by a write of the whole content.\<close>

definition write_file ::
  "pystr \<Rightarrow> 'a content \<Rightarrow> 'a filesystem \<Rightarrow> (error + unit) \<times> 'a filesystem" where
  "write_file path c fs =
     (if path \<in> dirs fs then (Inl IsADirectoryError, fs)
      else (Inr (), fs\<lparr>files := (files fs)(path \<mapsto> c)\<rparr>))"

definition open_read :: "'a filesystem \<Rightarrow> pystr \<Rightarrow> error + 'a content" where
  "open_read fs path =
     (case files fs path of
        Some c \<Rightarrow> Inr c
      | None \<Rightarrow> if path \<in> dirs fs then Inl IsADirectoryError else Inl FileNotFoundError)"

definition json_load :: "'a filesystem \<Rightarrow> pystr \<Rightarrow> error + json" where
  "json_load fs path =
     (case open_read fs path of
        Inl e \<Rightarrow> Inl e
      | Inr (JsonFile j) \<Rightarrow> Inr j
      | Inr _ \<Rightarrow> Inl JSONDecodeError)"

definition torch_load :: "'a filesystem \<Rightarrow> pystr \<Rightarrow> error + 'a tensor" where
  "torch_load fs path =
     (case open_read fs path of
        Inl e \<Rightarrow> Inl e
      | Inr (TorchFile t) \<Rightarrow> Inr t
      | Inr _ \<Rightarrow> Inl UnpicklingError)"

section \<open>The split checkpoint store\<close>

text \<open>\<open>f'{idx}'\<close> for a non-negative integer: its decimal digits.\<close>

fun str_nat :: "nat \<Rightarrow> pystr" where
  "str_nat n = (if n < 10 then [48 + n] else str_nat (n div 10) @ [48 + n mod 10])"

declare str_nat.simps [simp del]

text \<open>
  A Python \<open>dict\<close> keeps its keys in insertion order: an association list with distinct
  keys. \<open>d[k] = v\<close> replaces the value of a key in place and appends a new key.
\<close>

fun dict_set :: "('k \<times> 'v) list \<Rightarrow> 'k \<Rightarrow> 'v \<Rightarrow> ('k \<times> 'v) list" where
  "dict_set [] k v = [(k, v)]"
| "dict_set ((k', v') # d) k v = (if k' = k then (k, v) # d else (k', v') # dict_set d k v)"

definition KEY_TO_FILENAME_JSON :: pystr where
  "KEY_TO_FILENAME_JSON = asc ''key_to_filename.json''"

text \<open>\<open>f'p{idx}.{s}'\<close>, with \<open>s\<close> the sanitized name.\<close>

definition file_name :: "nat \<Rightarrow> pystr \<Rightarrow> pystr" where
  "file_name idx s = asc ''p'' @ str_nat idx @ asc ''.'' @ s"

text \<open>The first loop of \<open>save_split\<close>, over \<open>enumerate(state_dict.keys())\<close>.\<close>

fun assign_names ::
  "unicode_db \<Rightarrow> nat \<Rightarrow> pystr list \<Rightarrow> (pystr \<times> pystr) list \<Rightarrow> error + (pystr \<times> pystr) list" where
  "assign_names U idx [] key_to_filename = Inr key_to_filename"
| "assign_names U idx (key # keys) key_to_filename =
     (case sanitize_file_name U key of
        Inl e \<Rightarrow> Inl e
      | Inr s \<Rightarrow>
          assign_names U (idx + 1) keys
            (dict_set key_to_filename key (file_name idx s)))"

text \<open>The second loop, over \<open>state_dict.items()\<close>.\<close>

fun write_tensors ::
  "pystr \<Rightarrow> (pystr \<times> pystr) list \<Rightarrow> (pystr \<times> 'a tensor) list \<Rightarrow> 'a filesystem
   \<Rightarrow> (error + unit) \<times> 'a filesystem" where
  "write_tensors save_dir key_to_filename [] fs = (Inr (), fs)"
| "write_tensors save_dir key_to_filename ((key, t) # rest) fs =
     (case map_of key_to_filename key of
        None \<Rightarrow> (Inl KeyError, fs)
      | Some f \<Rightarrow>
          (case write_file (join save_dir f) (TorchFile t) fs of
             (Inl e, fs') \<Rightarrow> (Inl e, fs')
           | (Inr _, fs') \<Rightarrow> write_tensors save_dir key_to_filename rest fs'))"

definition manifest_json :: "(pystr \<times> pystr) list \<Rightarrow> json" where
  "manifest_json key_to_filename = JDict (map (\<lambda>(k, f). (k, JStr f)) key_to_filename)"

definition save_split ::
  "unicode_db \<Rightarrow> (pystr \<times> 'a tensor) list \<Rightarrow> pystr \<Rightarrow> 'a filesystem
   \<Rightarrow> (error + unit) \<times> 'a filesystem" where
  "save_split U state_dict save_dir fs =
     (case makedirs save_dir fs of
        (Inl e, fs1) \<Rightarrow> (Inl e, fs1)
      | (Inr _, fs1) \<Rightarrow>
          (case assign_names U 0 (map fst state_dict) [] of
             Inl e \<Rightarrow> (Inl e, fs1)
           | Inr key_to_filename \<Rightarrow>
               (case write_file (join save_dir KEY_TO_FILENAME_JSON)
                       (JsonFile (manifest_json key_to_filename)) fs1 of
                  (Inl e, fs2) \<Rightarrow> (Inl e, fs2)
                | (Inr _, fs2) \<Rightarrow> write_tensors save_dir key_to_filename state_dict fs2)))"

subsection \<open>File names\<close>


lemma str_nat_nonempty: "str_nat n \<noteq> []"
  by (subst str_nat.simps) simp

lemma str_nat_digits: "c \<in> set (str_nat n) \<Longrightarrow> 48 \<le> c \<and> c \<le> 57"
proof (induction n rule: str_nat.induct)
  case (1 n)
  show ?case
  proof (cases "n < 10")
    case True
    with "1.prems" show ?thesis by (subst (asm) str_nat.simps) simp
  next
    case False
    from "1.prems" have "c \<in> set (str_nat (n div 10)) \<or> c = 48 + n mod 10"
      using False by (subst (asm) str_nat.simps) auto
    moreover have "n mod 10 < 10" by simp
    ultimately show ?thesis using "1.IH"[OF False] by auto
  qed
qed

lemma str_nat_inj: "str_nat m = str_nat n \<Longrightarrow> m = n"
proof (induction m arbitrary: n rule: str_nat.induct)
  case (1 m)
  show ?case
  proof (cases "m < 10")
    case True
    show ?thesis
    proof (cases "n < 10")
      case True
      with \<open>m < 10\<close> "1.prems" show ?thesis
        by (simp add: str_nat.simps[of m] str_nat.simps[of n])
    next
      case False
      with \<open>m < 10\<close> "1.prems" str_nat_nonempty[of "n div 10"] show ?thesis
        by (simp add: str_nat.simps[of m] str_nat.simps[of n] Cons_eq_append_conv)
    qed
  next
    case False
    show ?thesis
    proof (cases "n < 10")
      case True
      with False "1.prems" str_nat_nonempty[of "m div 10"] show ?thesis
        by (simp add: str_nat.simps[of m] str_nat.simps[of n] append_eq_Cons_conv)
    next
      case F2: False
      from False F2 "1.prems" have "str_nat (m div 10) = str_nat (n div 10)" "m mod 10 = n mod 10"
        by (simp_all add: str_nat.simps[of m] str_nat.simps[of n])
      with "1.IH"[OF False] have "m div 10 = n div 10" "m mod 10 = n mod 10" by auto
      then show ?thesis by (metis div_mult_mod_eq)
    qed
  qed
qed


lemma file_name_inj: "file_name i s = file_name j s' \<Longrightarrow> i = j"
proof -
  assume "file_name i s = file_name j s'"
  then have e: "str_nat i @ 46 # s = str_nat j @ 46 # s'"
    by (simp add: file_name_def asc_def)
  have "\<And>n r. takeWhile (\<lambda>c. c \<noteq> 46) (str_nat n @ 46 # r) = str_nat n"
    using str_nat_digits by (subst takeWhile_append2) fastforce+
  with e have "str_nat i = str_nat j" by metis
  then show ?thesis by (rule str_nat_inj)
qed




text \<open>The sanitized name of a key that sanitizes.\<close>

definition sanitized :: "unicode_db \<Rightarrow> pystr \<Rightarrow> pystr" where
  "sanitized U key = (case sanitize_file_name U key of Inr s \<Rightarrow> s | Inl _ \<Rightarrow> [])"

fun names_from :: "unicode_db \<Rightarrow> nat \<Rightarrow> pystr list \<Rightarrow> (pystr \<times> pystr) list" where
  "names_from U idx [] = []"
| "names_from U idx (key # keys) = (key, file_name idx (sanitized U key)) # names_from U (idx + 1) keys"

lemma dict_set_new: "k \<notin> fst ` set d \<Longrightarrow> dict_set d k v = d @ [(k, v)]"
  by (induction d) auto

lemma fst_names_from: "map fst (names_from U idx keys) = keys"
  by (induction keys arbitrary: idx) auto

lemma length_names_from: "length (names_from U idx keys) = length keys"
  by (induction keys arbitrary: idx) auto

lemma nth_names_from:
  "i < length keys \<Longrightarrow> names_from U idx keys ! i = (keys ! i, file_name (idx + i) (sanitized U (keys ! i)))"
proof (induction keys arbitrary: idx i)
  case Nil then show ?case by simp
next
  case (Cons k ks)
  then show ?case by (cases i) auto
qed

lemma sanitize_cases:
  "sanitize_file_name U key = Inl ValueError \<or> sanitize_file_name U key = Inr (sanitized U key)"
  by (auto simp: sanitized_def sanitize_file_name_def Let_def)

lemma assign_names_Inr:
  "distinct keys \<Longrightarrow> set keys \<inter> fst ` set d = {} \<Longrightarrow>
   \<forall>k \<in> set keys. sanitize_file_name U k \<noteq> Inl ValueError \<Longrightarrow>
   assign_names U idx keys d = Inr (d @ names_from U idx keys)"
proof (induction keys arbitrary: idx d)
  case Nil then show ?case by simp
next
  case (Cons k ks)
  from Cons.prems have s: "sanitize_file_name U k = Inr (sanitized U k)"
    using sanitize_cases[of U k] by auto
  from Cons.prems have kd: "k \<notin> fst ` set d" by auto
  have "set ks \<inter> fst ` set (d @ [(k, file_name idx (sanitized U k))]) = {}"
    using Cons.prems by auto
  with Cons.IH[of "d @ [(k, file_name idx (sanitized U k))]" "idx + 1"] Cons.prems
  have "assign_names U (idx + 1) ks (d @ [(k, file_name idx (sanitized U k))]) =
        Inr ((d @ [(k, file_name idx (sanitized U k))]) @ names_from U (idx + 1) ks)"
    by auto
  then show ?case using s kd by (simp add: dict_set_new)
qed

lemma assign_names_Inl:
  "\<exists>k \<in> set keys. sanitize_file_name U k = Inl ValueError \<Longrightarrow>
   assign_names U idx keys d = Inl ValueError"
proof (induction keys arbitrary: idx d)
  case Nil then show ?case by simp
next
  case (Cons k ks)
  show ?case
  proof (cases "sanitize_file_name U k = Inl ValueError")
    case True then show ?thesis by simp
  next
    case False
    then have s: "sanitize_file_name U k = Inr (sanitized U k)"
      using sanitize_cases[of U k] by auto
    from False Cons.prems have "\<exists>k \<in> set ks. sanitize_file_name U k = Inl ValueError" by auto
    from Cons.IH[OF this] show ?thesis using s by simp
  qed
qed

lemma assign_names_success:
  "assign_names U idx keys d = Inr m \<Longrightarrow> \<forall>k \<in> set keys. sanitize_file_name U k \<noteq> Inl ValueError"
  using assign_names_Inl[of keys U idx d] by auto

lemma names_from_distinct: "distinct (map snd (names_from U idx keys))"
proof -
  have "\<And>i j. i < length keys \<Longrightarrow> j < length keys \<Longrightarrow> i \<noteq> j \<Longrightarrow>
     snd (names_from U idx keys ! i) \<noteq> snd (names_from U idx keys ! j)"
    using file_name_inj by (fastforce simp: nth_names_from)
  then show ?thesis
    by (simp add: distinct_conv_nth length_names_from)
qed

subsection \<open>Reading a checkpoint back\<close>




lemma map_of_nth: "distinct (map fst xs) \<Longrightarrow> i < length xs \<Longrightarrow> map_of xs (fst (xs ! i)) = Some (snd (xs ! i))"
  by (metis map_of_is_SomeI nth_mem prod.collapse)






section \<open>Properties of the split checkpoint store\<close>







text \<open>Concrete inputs.\<close>

definition fs0 :: "nat filesystem" where
  "fs0 = \<lparr>dirs = {}, files = Map.empty\<rparr>"

definition tz :: "nat \<Rightarrow> nat tensor" where
  "tz n = \<lparr>shape = [n], dtype = asc ''float32'', payload = n\<rparr>"

lemma str_nat_0: "str_nat 0 = [48]" by (simp add: str_nat.simps)
lemma str_nat_1: "str_nat 1 = [49]" by (simp add: str_nat.simps)
lemma str_nat_Suc0: "str_nat (Suc 0) = [49]" by (simp add: str_nat.simps)

lemmas eval_defs = sanitize_file_name_def strip_def replace_space_def re_sub_delete_def
      isspace_def is_word_def asc_def U0_def file_name_def str_nat_0 str_nat_1 str_nat_Suc0

lemma assign_names_file_names_distinct:
  assumes "distinct (map fst state_dict)"
    and "assign_names U 0 (map fst state_dict) [] = Inr key_to_filename"
    and "i < length state_dict" and "j < length state_dict" and "i \<noteq> j"
  shows "\<exists>si sj.
           sanitize_file_name U (fst (state_dict ! i)) = Inr si \<and>
           sanitize_file_name U (fst (state_dict ! j)) = Inr sj \<and>
           map_of key_to_filename (fst (state_dict ! i)) = Some (file_name i si) \<and>
           map_of key_to_filename (fst (state_dict ! j)) = Some (file_name j sj) \<and>
           file_name i si \<noteq> file_name j sj"
proof -
  let ?keys = "map fst state_dict"
  have ok: "\<forall>k \<in> set ?keys. sanitize_file_name U k \<noteq> Inl ValueError"
    using assms(2) by (rule assign_names_success)
  with assms(1) have "assign_names U 0 ?keys [] = Inr ([] @ names_from U 0 ?keys)"
    by (intro assign_names_Inr) auto
  with assms(2) have m: "key_to_filename = names_from U 0 ?keys" by simp
  have d: "distinct (map fst (names_from U 0 ?keys))"
    using assms(1) by (simp add: fst_names_from)
  have look: "\<And>n. n < length state_dict \<Longrightarrow>
      map_of key_to_filename (fst (state_dict ! n)) = Some (file_name n (sanitized U (fst (state_dict ! n))))
      \<and> sanitize_file_name U (fst (state_dict ! n)) = Inr (sanitized U (fst (state_dict ! n)))"
  proof -
    fix n assume n: "n < length state_dict"
    then have "map_of (names_from U 0 ?keys) (fst (names_from U 0 ?keys ! n)) =
        Some (snd (names_from U 0 ?keys ! n))"
      using d by (intro map_of_nth) (simp_all add: length_names_from)
    moreover have "names_from U 0 ?keys ! n = (?keys ! n, file_name (0 + n) (sanitized U (?keys ! n)))"
      using n by (intro nth_names_from) simp
    moreover have "sanitize_file_name U (fst (state_dict ! n)) \<noteq> Inl ValueError"
      using ok n by simp
    ultimately show "map_of key_to_filename (fst (state_dict ! n)) = Some (file_name n (sanitized U (fst (state_dict ! n))))
      \<and> sanitize_file_name U (fst (state_dict ! n)) = Inr (sanitized U (fst (state_dict ! n)))"
      using n m sanitize_cases[of U "fst (state_dict ! n)"] by auto
  qed
  have "file_name i (sanitized U (fst (state_dict ! i))) \<noteq> file_name j (sanitized U (fst (state_dict ! j)))"
    using assms(5) file_name_inj by blast
  with look[OF assms(3)] look[OF assms(4)] show ?thesis by blast
qed

text \<open>
  C5. For every mapping saved by \<open>save_split\<close> (a \<open>dict\<close>: its keys are distinct), the
  names at two distinct enumeration positions \<open>i\<close> and \<open>j\<close> are assigned the file names
  \<open>p<i>.<sanitized name>\<close> and \<open>p<j>.<sanitized name>\<close>, and the two file names differ,
  whatever the sanitized bodies are.
\<close>

theorem save_split_file_names_distinct:
  assumes "distinct (map fst state_dict)"
    and "fst (save_split U state_dict save_dir fs) = Inr ()"
    and "i < length state_dict" and "j < length state_dict" and "i \<noteq> j"
  shows "\<exists>key_to_filename si sj.
           assign_names U 0 (map fst state_dict) [] = Inr key_to_filename \<and>
           sanitize_file_name U (fst (state_dict ! i)) = Inr si \<and>
           sanitize_file_name U (fst (state_dict ! j)) = Inr sj \<and>
           map_of key_to_filename (fst (state_dict ! i)) = Some (file_name i si) \<and>
           map_of key_to_filename (fst (state_dict ! j)) = Some (file_name j sj) \<and>
           file_name i si \<noteq> file_name j sj"
proof -
  from assms(2) obtain key_to_filename where
    "assign_names U 0 (map fst state_dict) [] = Inr key_to_filename"
    by (auto simp: save_split_def split: prod.splits sum.splits)
  with assign_names_file_names_distinct[OF assms(1) this assms(3,4,5)] show ?thesis by blast
qed

theorem save_split_file_names_distinct_witness:
  "fst (save_split U0 [(asc ''a b'', tz 1), (asc ''a_b'', tz 2)] (asc ''ckpt'') fs0) = Inr () \<and>
   assign_names U0 0 (map fst [(asc ''a b'', tz 1), (asc ''a_b'', tz 2)]) [] =
     Inr [(asc ''a b'', asc ''p0.a_b''), (asc ''a_b'', asc ''p1.a_b'')] \<and>
   sanitize_file_name U0 (asc ''a b'') = Inr (asc ''a_b'') \<and>
   sanitize_file_name U0 (asc ''a_b'') = Inr (asc ''a_b'') \<and>
   asc ''p0.a_b'' \<noteq> asc ''p1.a_b''"
proof -
  have s: "fst (save_split U0 [(asc ''a b'', tz 1), (asc ''a_b'', tz 2)] (asc ''ckpt'') fs0) = Inr ()"
    by (simp add: eval_defs save_split_def makedirs_def write_file_def join_def
        KEY_TO_FILENAME_JSON_def fs0_def)
  have d: "distinct (map fst [(asc ''a b'', tz 1 :: nat tensor), (asc ''a_b'', tz 2)])"
    by (simp add: asc_def)
  from save_split_file_names_distinct[OF d s, of 0 1] s show ?thesis
    by (simp add: eval_defs)
qed

text \<open>
  C6. If \<open>sanitize_file_name\<close> raises for any name of the mapping, \<open>save_split\<close> raises
  and the regular files are what they were: neither the manifest nor a tensor file is
  written. (The directory has been made by then; when it could be made, the error is the
  sanitization's \<open>ValueError\<close>.)
\<close>

theorem save_split_all_or_nothing:
  assumes "k \<in> fst ` set state_dict" and "sanitize_file_name U k = Inl ValueError"
  shows "\<exists>e. fst (save_split U state_dict save_dir fs) = Inl e \<and>
           files (snd (save_split U state_dict save_dir fs)) = files fs \<and>
           (fst (makedirs save_dir fs) = Inr () \<longrightarrow> e = ValueError)"
proof -
  have "assign_names U 0 (map fst state_dict) [] = Inl ValueError"
    using assms by (intro assign_names_Inl) auto
  then show ?thesis
    by (auto simp: save_split_def makedirs_def split: prod.splits sum.splits)
qed

theorem save_split_all_or_nothing_witness:
  "asc ''..'' \<in> fst ` set [(asc ''w'', tz 1), (asc ''..'', tz 2)] \<and>
   sanitize_file_name U0 (asc ''..'') = Inl ValueError \<and>
   fst (save_split U0 [(asc ''w'', tz 1), (asc ''..'', tz 2)] (asc ''ckpt'') fs0) = Inl ValueError \<and>
   files (snd (save_split U0 [(asc ''w'', tz 1), (asc ''..'', tz 2)] (asc ''ckpt'') fs0)) = files fs0"
  using save_split_all_or_nothing [of "asc ''..''" "[(asc ''w'', tz 1), (asc ''..'', tz 2)]" U0 "asc ''ckpt''" fs0]
  by (simp add: eval_defs save_split_def makedirs_def fs0_def)




section \<open>The greedy decoder\<close>

text \<open>
  A two-dimensional tensor: the size of its last dimension and its rows. Scores are
  floating-point numbers, of which the decoder uses only the order and \<open>-inf\<close>: any linear
  order with a least element (NaN, which no order places, is left out).
\<close>

datatype 'a mat = Mat (ncols: nat) (rows: "'a list list")

text \<open>
  The model interface: \<open>model.reset()\<close> and the forward call
  \<open>model(input_ids, position_ids)\<close>, which returns the scores and changes the model's state.
\<close>

record ('s, 'a) model =
  reset :: "'s \<Rightarrow> 's"
  forward :: "'s \<Rightarrow> int mat \<Rightarrow> int list \<Rightarrow> 'a mat \<times> 's"

text \<open>An integer index into a dimension of size \<open>n\<close>; a negative one counts from the end.\<close>

definition index_of :: "int \<Rightarrow> nat \<Rightarrow> error + nat" where
  "index_of i n =
     (if 0 \<le> i \<and> i < int n then Inr (nat i)
      else if - int n \<le> i \<and> i < 0 then Inr (nat (i + int n))
      else Inl IndexError)"

text \<open>\<open>next_token_scores[:, eos_token_id] = -float('inf')\<close>\<close>

definition suppress :: "int \<Rightarrow> ('a::{linorder,order_bot}) mat \<Rightarrow> error + 'a mat" where
  "suppress eos_token_id t =
     (case index_of eos_token_id (ncols t) of
        Inl e \<Rightarrow> Inl e
      | Inr j \<Rightarrow> Inr (Mat (ncols t) (map (\<lambda>r. r[j := bot]) (rows t))))"

text \<open>\<open>torch.argmax\<close>: the index of the first maximal value.\<close>

fun argmax_from :: "nat \<Rightarrow> 'a \<Rightarrow> nat \<Rightarrow> ('a::linorder) list \<Rightarrow> nat" where
  "argmax_from b v i [] = b"
| "argmax_from b v i (x # xs) =
     (if v < x then argmax_from i x (i + 1) xs else argmax_from b v (i + 1) xs)"

fun argmax :: "('a::linorder) list \<Rightarrow> nat" where
  "argmax [] = 0"
| "argmax (x # xs) = argmax_from 0 x 1 xs"

text \<open>\<open>torch.argmax(t, dim=-1, keepdim=True)\<close>\<close>

definition argmax_keepdim :: "('a::linorder) mat \<Rightarrow> error + int mat" where
  "argmax_keepdim t =
     (if ncols t = 0 then Inl IndexError
      else Inr (Mat 1 (map (\<lambda>r. [int (argmax r)]) (rows t))))"

text \<open>\<open>torch.cat(ts, dim=-1)\<close>\<close>

fun cat :: "'a mat list \<Rightarrow> error + 'a mat" where
  "cat [] = Inl RuntimeError"
| "cat [t] = Inr t"
| "cat (t # ts) =
     (case cat ts of
        Inl e \<Rightarrow> Inl e
      | Inr u \<Rightarrow>
          if length (rows t) = length (rows u)
          then Inr (Mat (ncols t + ncols u) (map2 (@) (rows t) (rows u)))
          else Inl RuntimeError)"

text \<open>The loop of \<open>greedy_search\<close> over \<open>range(start, sequence_length)\<close>.\<close>

fun greedy_loop ::
  "('s, 'a::{linorder,order_bot}) model \<Rightarrow> int \<Rightarrow> nat list \<Rightarrow> 'a mat \<Rightarrow> int mat list \<Rightarrow> 's
   \<Rightarrow> error + (int mat list \<times> 's)" where
  "greedy_loop M eos_token_id [] next_token_scores tokens s = Inr (tokens, s)"
| "greedy_loop M eos_token_id (cur_len # rest) next_token_scores tokens s =
     (case suppress eos_token_id next_token_scores of
        Inl e \<Rightarrow> Inl e
      | Inr next_token_scores \<Rightarrow>
          (case argmax_keepdim next_token_scores of
             Inl e \<Rightarrow> Inl e
           | Inr max_index \<Rightarrow>
               (case forward M s max_index [int cur_len] of
                  (next_token_scores, s) \<Rightarrow>
                    greedy_loop M eos_token_id rest next_token_scores
                      (tokens @ [max_index]) s)))"

definition greedy_search ::
  "('s, 'a::{linorder,order_bot}) model \<Rightarrow> 's \<Rightarrow> int mat \<Rightarrow> int \<Rightarrow> int
   \<Rightarrow> error + (int mat \<times> 's)" where
  "greedy_search M s input_ids sequence_length eos_token_id =
     (let s = reset M s;
          start = ncols input_ids;
          position_ids = map int [0..<start]
      in case forward M s input_ids position_ids of
           (next_token_scores, s) \<Rightarrow>
             (case greedy_loop M eos_token_id [start..<nat sequence_length]
                     next_token_scores [input_ids] s of
                Inl e \<Rightarrow> Inl e
              | Inr (tokens, s) \<Rightarrow>
                  (case cat tokens of Inl e \<Rightarrow> Inl e | Inr r \<Rightarrow> Inr (r, s))))"

text \<open>
  The decoding as the contract words it. \<open>scores_at k\<close> is the model's current score tensor
  (and state) before the \<open>k\<close>-th generated token: the forward pass over the whole prompt for
  \<open>k = 0\<close>, and afterwards the forward pass over the one token generated last, at its
  absolute position. \<open>token_at k b\<close> is the \<open>k\<close>-th generated token of sequence \<open>b\<close>: the
  arg-max of the current score vector with the end-of-sequence logit set to \<open>-inf\<close>.
\<close>

definition eos_index :: "int \<Rightarrow> 'a mat \<Rightarrow> nat" where
  "eos_index eos sc = (case index_of eos (ncols sc) of Inr j \<Rightarrow> j | Inl _ \<Rightarrow> 0)"

definition chosen :: "int \<Rightarrow> ('a::{linorder,order_bot}) mat \<Rightarrow> 'a list \<Rightarrow> int" where
  "chosen eos sc r = int (argmax (r[eos_index eos sc := bot]))"

fun scores_at ::
  "('s, 'a::{linorder,order_bot}) model \<Rightarrow> 's \<Rightarrow> int mat \<Rightarrow> int \<Rightarrow> nat \<Rightarrow> 'a mat \<times> 's" where
  "scores_at M s ids eos 0 = forward M (reset M s) ids (map int [0..<ncols ids])"
| "scores_at M s ids eos (Suc k) =
     (case scores_at M s ids eos k of
        (sc, st) \<Rightarrow>
          forward M st (Mat 1 (map (\<lambda>r. [chosen eos sc r]) (rows sc))) [int (ncols ids + k)])"

definition token_at ::
  "('s, 'a::{linorder,order_bot}) model \<Rightarrow> 's \<Rightarrow> int mat \<Rightarrow> int \<Rightarrow> nat \<Rightarrow> nat \<Rightarrow> int" where
  "token_at M s ids eos k b =
     (case scores_at M s ids eos k of (sc, st) \<Rightarrow> chosen eos sc (rows sc ! b))"

text \<open>The shape of what the model returns: \<open>eos\<close> indexes the last dimension, one row per sequence.\<close>

definition model_shape :: "('s, 'a) model \<Rightarrow> int \<Rightarrow> bool" where
  "model_shape M eos \<longleftrightarrow>
     (\<forall>s ids pos. index_of eos (ncols (fst (forward M s ids pos))) \<noteq> Inl IndexError \<and>
                  length (rows (fst (forward M s ids pos))) = length (rows ids))"

lemma scores_at_forward: "\<exists>s' ids' pos. scores_at M s ids eos k = forward M s' ids' pos"
  by (cases k) (auto split: prod.splits)

lemma index_of_cases: "index_of i n = Inl IndexError \<or> (\<exists>j. index_of i n = Inr j \<and> j < n)"
  by (auto simp: index_of_def)

lemma scores_at_index:
  assumes "model_shape M eos" "scores_at M s ids eos k = (sc, st)"
  shows "index_of eos (ncols sc) = Inr (eos_index eos sc) \<and> ncols sc \<noteq> 0"
proof -
  obtain s' ids' pos where "scores_at M s ids eos k = forward M s' ids' pos"
    using scores_at_forward[of M s ids eos k] by auto
  with assms have "index_of eos (ncols sc) \<noteq> Inl IndexError"
    by (metis fst_conv model_shape_def)
  then obtain j where "index_of eos (ncols sc) = Inr j" "j < ncols sc"
    using index_of_cases by blast
  then show ?thesis by (auto simp: eos_index_def)
qed

lemma scores_at_rows:
  assumes "model_shape M eos"
  shows "length (rows (fst (scores_at M s ids eos k))) = length (rows ids)"
proof (induction k)
  case 0
  then show ?case using assms by (simp add: model_shape_def)
next
  case (Suc k)
  obtain sc st where e: "scores_at M s ids eos k = (sc, st)" by (cases "scores_at M s ids eos k")
  have "length (rows (fst (forward M st (Mat 1 (map (\<lambda>r. [chosen eos sc r]) (rows sc))) [int (ncols ids + k)])))
        = length (rows (Mat 1 (map (\<lambda>r. [chosen eos sc r]) (rows sc)) :: int mat))"
    using assms unfolding model_shape_def by blast
  then show ?case using Suc e by simp
qed

definition column_at ::
  "('s, 'a::{linorder,order_bot}) model \<Rightarrow> 's \<Rightarrow> int mat \<Rightarrow> int \<Rightarrow> nat \<Rightarrow> int mat" where
  "column_at M s ids eos k =
     (case scores_at M s ids eos k of (sc, st) \<Rightarrow> Mat 1 (map (\<lambda>r. [chosen eos sc r]) (rows sc)))"

lemma greedy_loop_trace:
  assumes "model_shape M eos"
  shows "scores_at M s ids eos k = (sc, st) \<Longrightarrow>
     greedy_loop M eos [ncols ids + k..<ncols ids + k + m] sc toks st =
       Inr (toks @ map (column_at M s ids eos) [k..<k + m], snd (scores_at M s ids eos (k + m)))"
proof (induction m arbitrary: k sc st toks)
  case 0
  then show ?case by simp
next
  case (Suc m)
  let ?L = "ncols ids"
  have r: "[?L + k..<?L + k + Suc m] = (?L + k) # [?L + Suc k..<?L + Suc k + m]"
    by (simp add: upt_conv_Cons)
  from scores_at_index[OF assms Suc.prems]
  have ix: "index_of eos (ncols sc) = Inr (eos_index eos sc)" "ncols sc \<noteq> 0" by auto
  let ?mi = "Mat 1 (map (\<lambda>r. [chosen eos sc r]) (rows sc)) :: int mat"
  have su: "suppress eos sc = Inr (Mat (ncols sc) (map (\<lambda>r. r[eos_index eos sc := bot]) (rows sc)))"
    using ix by (simp add: suppress_def)
  have am: "argmax_keepdim (Mat (ncols sc) (map (\<lambda>r. r[eos_index eos sc := bot]) (rows sc))) = Inr ?mi"
    using ix by (simp add: argmax_keepdim_def chosen_def comp_def)
  obtain sc' st' where f: "forward M st ?mi [int (?L + k)] = (sc', st')"
    by (cases "forward M st ?mi [int (?L + k)]")
  then have nx: "scores_at M s ids eos (Suc k) = (sc', st')"
    using Suc.prems by simp
  have col: "column_at M s ids eos k = ?mi"
    using Suc.prems by (simp add: column_at_def)
  have "greedy_loop M eos [?L + Suc k..<?L + Suc k + m] sc' (toks @ [?mi]) st' =
       Inr ((toks @ [?mi]) @ map (column_at M s ids eos) [Suc k..<Suc k + m],
            snd (scores_at M s ids eos (Suc k + m)))"
    by (rule Suc.IH[OF nx])
  moreover have "[k..<k + Suc m] = k # [Suc k..<Suc k + m]"
    by (simp add: upt_conv_Cons)
  ultimately show ?case
    unfolding r using su am f col by simp
qed

lemma map2_append_nth:
  "length xs = B \<Longrightarrow> length ys = B \<Longrightarrow> map2 (@) xs ys = map (\<lambda>b. xs ! b @ ys ! b) [0..<B]"
  by (rule nth_equalityI) auto

lemma cat_rows:
  "ts \<noteq> [] \<Longrightarrow> \<forall>t \<in> set ts. length (rows t) = B \<Longrightarrow>
   cat ts = Inr (Mat (sum_list (map ncols ts)) (map (\<lambda>b. concat (map (\<lambda>t. rows t ! b) ts)) [0..<B]))"
proof (induction ts rule: cat.induct)
  case 1
  then show ?case by simp
next
  case (2 t)
  then have "rows t = map (\<lambda>b. rows t ! b) [0..<B]"
    by (auto intro: nth_equalityI)
  then have "t = Mat (ncols t) (map (\<lambda>b. rows t ! b) [0..<B])"
    by (cases t) simp
  then show ?case by simp
next
  case (3 t u us)
  then have "cat (u # us) = Inr (Mat (sum_list (map ncols (u # us)))
      (map (\<lambda>b. concat (map (\<lambda>t. rows t ! b) (u # us))) [0..<B]))"
    by simp
  moreover have "length (rows t) = B" using "3.prems" by simp
  ultimately show ?case
    by (simp add: map2_append_nth[of _ B])
qed

lemma argmax_from_spec:
  "(argmax_from b v i xs = b \<and> (\<forall>y \<in> set xs. y \<le> v)) \<or>
   (\<exists>k < length xs. argmax_from b v i xs = i + k \<and> v < xs ! k \<and>
      (\<forall>j < k. xs ! j < xs ! k) \<and> (\<forall>j < length xs. xs ! j \<le> xs ! k))"
proof (induction xs arbitrary: b v i)
  case Nil
  then show ?case by simp
next
  case (Cons x xs)
  show ?case
  proof (cases "v < x")
    case True
    from Cons.IH[of i x "i + 1"] show ?thesis
    proof
      assume a: "argmax_from i x (i + 1) xs = i \<and> (\<forall>y \<in> set xs. y \<le> x)"
      have "\<forall>j < length (x # xs). (x # xs) ! j \<le> (x # xs) ! 0"
        using a by (auto simp: nth_Cons')
      with a True show ?thesis by (intro disjI2 exI[of _ 0]) simp
    next
      assume "\<exists>k < length xs. argmax_from i x (i + 1) xs = i + 1 + k \<and> x < xs ! k \<and>
        (\<forall>j < k. xs ! j < xs ! k) \<and> (\<forall>j < length xs. xs ! j \<le> xs ! k)"
      then obtain k where k: "k < length xs" "argmax_from i x (i + 1) xs = i + 1 + k" "x < xs ! k"
        "\<forall>j < k. xs ! j < xs ! k" "\<forall>j < length xs. xs ! j \<le> xs ! k" by blast
      have 1: "\<forall>j < Suc k. (x # xs) ! j < (x # xs) ! Suc k"
        using k by (auto simp: nth_Cons')
      have 2: "\<forall>j < length (x # xs). (x # xs) ! j \<le> (x # xs) ! Suc k"
        using k by (auto simp: nth_Cons' less_imp_le)
      have 3: "v < (x # xs) ! Suc k" using True k by auto
      show ?thesis using True k 1 2 3 by (intro disjI2 exI[of _ "Suc k"]) simp
    qed
  next
    case False
    from Cons.IH[of b v "i + 1"] show ?thesis
    proof
      assume "argmax_from b v (i + 1) xs = b \<and> (\<forall>y \<in> set xs. y \<le> v)"
      with False show ?thesis by auto
    next
      assume "\<exists>k < length xs. argmax_from b v (i + 1) xs = i + 1 + k \<and> v < xs ! k \<and>
        (\<forall>j < k. xs ! j < xs ! k) \<and> (\<forall>j < length xs. xs ! j \<le> xs ! k)"
      then obtain k where k: "k < length xs" "argmax_from b v (i + 1) xs = i + 1 + k" "v < xs ! k"
        "\<forall>j < k. xs ! j < xs ! k" "\<forall>j < length xs. xs ! j \<le> xs ! k" by blast
      have xk: "x < xs ! k" using False k by auto
      have 1: "\<forall>j < Suc k. (x # xs) ! j < (x # xs) ! Suc k"
        using k xk by (auto simp: nth_Cons')
      have 2: "\<forall>j < length (x # xs). (x # xs) ! j \<le> (x # xs) ! Suc k"
        using k xk by (auto simp: nth_Cons' less_imp_le)
      show ?thesis using False k 1 2 by (intro disjI2 exI[of _ "Suc k"]) simp
    qed
  qed
qed

text \<open>The arg-max is the first index of a maximal value.\<close>

lemma argmax_first_max:
  assumes "r \<noteq> []"
  shows "argmax r < length r \<and> (\<forall>j < length r. r ! j \<le> r ! argmax r) \<and>
         (\<forall>j < argmax r. r ! j < r ! argmax r)"
proof -
  obtain x xs where r: "r = x # xs" using assms by (cases r) auto
  from argmax_from_spec[of 0 x 1 xs] show ?thesis
  proof
    assume "argmax_from 0 x 1 xs = 0 \<and> (\<forall>y \<in> set xs. y \<le> x)"
    then show ?thesis using r by (auto simp: nth_Cons')
  next
    assume "\<exists>k < length xs. argmax_from 0 x 1 xs = 1 + k \<and> x < xs ! k \<and>
        (\<forall>j < k. xs ! j < xs ! k) \<and> (\<forall>j < length xs. xs ! j \<le> xs ! k)"
    then obtain k where k: "k < length xs" "argmax_from 0 x 1 xs = 1 + k" "x < xs ! k"
        "\<forall>j < k. xs ! j < xs ! k" "\<forall>j < length xs. xs ! j \<le> xs ! k" by blast
    then show ?thesis using r by (auto simp: nth_Cons' less_imp_le)
  qed
qed

lemma argmax_single:
  assumes "k < length r" "\<forall>j < length r. j \<noteq> k \<longrightarrow> r ! j < r ! k"
  shows "argmax r = k"
proof -
  from assms have ne: "r \<noteq> []" by auto
  from argmax_first_max[OF ne] have a: "argmax r < length r" "r ! k \<le> r ! argmax r"
    using assms(1) by auto
  show ?thesis
  proof (rule ccontr)
    assume "argmax r \<noteq> k"
    with assms(2) a(1) have "r ! argmax r < r ! k" by auto
    with a(2) show False by simp
  qed
qed

text \<open>The stub model: every forward pass returns the score vector \<open>v\<close> for each sequence.\<close>

definition stub :: "'a list \<Rightarrow> ('s, 'a) model" where
  "stub v = \<lparr>reset = (\<lambda>s. s),
             forward = (\<lambda>s ids pos. (Mat (length v) (replicate (length (rows ids)) v), s))\<rparr>"

lemma greedy_search_trace:
  assumes "model_shape M eos"
  shows "greedy_search M s ids n eos =
    Inr (Mat (ncols ids + (nat n - ncols ids))
          (map (\<lambda>b. rows ids ! b @ map (\<lambda>k. token_at M s ids eos k b) [0..<nat n - ncols ids])
             [0..<length (rows ids)]),
         snd (scores_at M s ids eos (nat n - ncols ids)))"
proof -
  let ?L = "ncols ids" and ?B = "length (rows ids)"
  define m where "m = nat n - ?L"
  obtain sc st where s0: "scores_at M s ids eos 0 = (sc, st)"
    by (cases "scores_at M s ids eos 0")
  have rg: "[?L..<nat n] = [?L + 0..<?L + 0 + m]"
    by (cases "ncols ids \<le> nat n") (simp_all add: m_def)
  let ?cols = "map (column_at M s ids eos) [0..<m]"
  have lp: "greedy_loop M eos [?L..<nat n] sc [ids] st =
      Inr ([ids] @ ?cols, snd (scores_at M s ids eos m))"
    unfolding rg using greedy_loop_trace[OF assms s0, of m "[ids]"] by simp
  have colrows: "\<And>k. length (rows (column_at M s ids eos k)) = ?B"
    using scores_at_rows[OF assms, of s ids] by (simp add: column_at_def split: prod.splits) (metis fst_conv)
  have colncols: "\<And>k. ncols (column_at M s ids eos k) = 1"
    by (simp add: column_at_def split: prod.splits)
  have colnth: "\<And>k b. b < ?B \<Longrightarrow> rows (column_at M s ids eos k) ! b = [token_at M s ids eos k b]"
  proof -
    fix k b assume b: "b < ?B"
    obtain sc' st' where e: "scores_at M s ids eos k = (sc', st')"
      by (cases "scores_at M s ids eos k")
    then have "length (rows sc') = ?B" using scores_at_rows[OF assms, of s ids k] by simp
    with b e show "rows (column_at M s ids eos k) ! b = [token_at M s ids eos k b]"
      by (simp add: column_at_def token_at_def)
  qed
  have "\<forall>t \<in> set ([ids] @ ?cols). length (rows t) = ?B"
    using colrows by auto
  then have ct: "cat ([ids] @ ?cols) =
      Inr (Mat (sum_list (map ncols ([ids] @ ?cols)))
            (map (\<lambda>b. concat (map (\<lambda>t. rows t ! b) ([ids] @ ?cols))) [0..<?B]))"
    by (intro cat_rows) simp_all
  have sm: "sum_list (map ncols ([ids] @ ?cols)) = ?L + m"
    using colncols by (simp add: comp_def sum_list_triv)
  have rw: "map (\<lambda>b. concat (map (\<lambda>t. rows t ! b) ([ids] @ ?cols))) [0..<?B] =
      map (\<lambda>b. rows ids ! b @ map (\<lambda>k. token_at M s ids eos k b) [0..<m]) [0..<?B]"
  proof (rule map_cong[OF refl])
    fix b assume "b \<in> set [0..<?B]"
    then have b: "b < ?B" by simp
    have "concat (map (\<lambda>t. rows t ! b) ?cols) = map (\<lambda>k. token_at M s ids eos k b) [0..<m]"
      using colnth[OF b] by (induction m) (simp_all add: comp_def)
    then show "concat (map (\<lambda>t. rows t ! b) ([ids] @ ?cols)) =
        rows ids ! b @ map (\<lambda>k. token_at M s ids eos k b) [0..<m]"
      by simp
  qed
  show ?thesis
    using s0 lp ct unfolding sm rw
    by (simp add: greedy_search_def Let_def m_def)
qed

lemma stub_shape:
  "index_of eos (length v) = Inr e \<Longrightarrow> model_shape (stub v) eos"
  by (simp add: model_shape_def stub_def)

lemma stub_scores_at:
  "scores_at (stub v) s ids eos k = (Mat (length v) (replicate (length (rows ids)) v), s)"
  by (induction k) (simp_all add: stub_def)

lemma stub_token_at:
  assumes "5 < length v" "\<forall>j < length v. j \<noteq> 5 \<longrightarrow> v ! j < v ! 5"
    "index_of eos (length v) = Inr e" "e \<noteq> 5" "b < length (rows ids)"
  shows "token_at (stub v) s ids eos k b = 5"
proof -
  have e: "eos_index eos (Mat (length v) (replicate (length (rows ids)) v)) = e" "e < length v"
    using assms(3) index_of_cases[of eos "length v"] by (auto simp: eos_index_def)
  have "v ! e < v ! 5" using assms(2,4) e by simp
  then have "bot < v ! 5" by (metis bot.extremum_strict not_less_iff_gr_or_eq order_less_trans bot.not_eq_extremum)
  then have "\<forall>j < length (v[e := bot]). j \<noteq> 5 \<longrightarrow> (v[e := bot]) ! j < (v[e := bot]) ! 5"
    using assms(2,4) e(2) by (auto simp: nth_list_update)
  then have "argmax (v[e := bot]) = 5"
    using assms(1) by (intro argmax_single) simp_all
  then show ?thesis
    using e assms(5) by (simp add: token_at_def stub_scores_at chosen_def)
qed

definition v0 :: "real option list" where
  "v0 = [Some 1, Some 2, Some 8, Some 3, Some 4, Some 9]"

text \<open>
  C9. For every model whose score tensors have one row per sequence and a last dimension
  that \<open>eos_token_id\<close> indexes, every prompt (a tensor \<open>ids\<close> of \<open>L\<close> columns) and every
  requested length \<open>n\<close>, \<open>greedy_search\<close> returns, and row \<open>b\<close> of the result is row \<open>b\<close> of
  the prompt followed by exactly \<open>n - L\<close> generated tokens (none when \<open>n \<le> L\<close>); the \<open>k\<close>-th
  of them is \<open>token_at k b\<close>: the arg-max of the model's current score vector for that
  sequence after the end-of-sequence logit is set to \<open>-inf\<close>. In particular, with the stub
  model that always returns a fixed score vector whose single maximum is at index 5, not
  the end-of-sequence index, and \<open>n = L + 3\<close>, the result is the prompt followed by
  \<open>[5, 5, 5]\<close>.
\<close>

theorem greedy_search_spec:
  "(model_shape M eos \<longrightarrow>
      greedy_search M s ids n eos =
        Inr (Mat (ncols ids + (nat n - ncols ids))
              (map (\<lambda>b. rows ids ! b @ map (\<lambda>k. token_at M s ids eos k b) [0..<nat n - ncols ids])
                 [0..<length (rows ids)]),
             snd (scores_at M s ids eos (nat n - ncols ids)))) \<and>
   (5 < length (v :: ('c::{linorder,order_bot}) list) \<and>
    (\<forall>j < length v. j \<noteq> 5 \<longrightarrow> v ! j < v ! 5) \<and>
    index_of eos' (length v) = Inr e \<and> e \<noteq> 5 \<longrightarrow>
      greedy_search (stub v) (s' :: 't) ids' (int (ncols ids') + 3) eos' =
        Inr (Mat (ncols ids' + 3) (map (\<lambda>r. r @ [5, 5, 5]) (rows ids')), s'))"
proof (intro conjI impI)
  assume "model_shape M eos"
  then show "greedy_search M s ids n eos =
        Inr (Mat (ncols ids + (nat n - ncols ids))
              (map (\<lambda>b. rows ids ! b @ map (\<lambda>k. token_at M s ids eos k b) [0..<nat n - ncols ids])
                 [0..<length (rows ids)]),
             snd (scores_at M s ids eos (nat n - ncols ids)))"
    by (rule greedy_search_trace)
next
  assume a: "5 < length v \<and> (\<forall>j < length v. j \<noteq> 5 \<longrightarrow> v ! j < v ! 5) \<and>
    index_of eos' (length v) = Inr e \<and> e \<noteq> 5"
  then have sh: "model_shape (stub v :: ('t, 'c) model) eos'" by (auto intro: stub_shape)
  have n3: "nat (int (ncols ids') + 3) - ncols ids' = 3" by simp
  have tk: "\<And>k b. b < length (rows ids') \<Longrightarrow> token_at (stub v) s' ids' eos' k b = 5"
    using a by (intro stub_token_at) auto
  have "map (\<lambda>b. rows ids' ! b @ map (\<lambda>k. token_at (stub v) s' ids' eos' k b) [0..<3])
          [0..<length (rows ids')] = map (\<lambda>r. r @ [5, 5, 5]) (rows ids')"
    using tk by (intro nth_equalityI) (simp_all add: numeral_3_eq_3)
  then show "greedy_search (stub v) s' ids' (int (ncols ids') + 3) eos' =
        Inr (Mat (ncols ids' + 3) (map (\<lambda>r. r @ [5, 5, 5]) (rows ids')), s')"
    using greedy_search_trace[OF sh, of s' ids' "int (ncols ids') + 3"]
    unfolding n3 by (simp add: stub_scores_at)
qed

theorem greedy_search_spec_witness:
  "model_shape (stub v0 :: (unit, real option) model) 2 \<and>
   5 < length v0 \<and> index_of 2 (length v0) = Inr 2 \<and>
   greedy_search (stub v0) () (Mat 2 [[7, 8], [9, 10]]) 5 2 =
     Inr (Mat 5 [[7, 8, 5, 5, 5], [9, 10, 5, 5, 5]], ())"
proof -
  have h: "5 < length v0 \<and> (\<forall>j < length v0. j \<noteq> 5 \<longrightarrow> v0 ! j < v0 ! 5) \<and>
      index_of 2 (length v0) = Inr 2 \<and> (2::nat) \<noteq> 5"
    by (auto simp: v0_def index_of_def nth_Cons split: nat.splits)
  have s: "model_shape (stub v0 :: (unit, real option) model) 2"
    using h by (auto intro: stub_shape)
  from greedy_search_spec[of "stub v0 :: (unit, real option) model" 2 "()" "Mat 2 [[7, 8], [9, 10]]" 5 v0 2 2
      "()" "Mat 2 [[7, 8], [9, 10]]"] h
  have "greedy_search (stub v0) () (Mat 2 [[7, 8], [9, 10]]) (int (ncols (Mat 2 [[7, 8], [9, 10]] :: int mat)) + 3) 2 =
        Inr (Mat (ncols (Mat 2 [[7, 8], [9, 10]] :: int mat) + 3)
            (map (\<lambda>r. r @ [5, 5, 5]) (rows (Mat 2 [[7, 8], [9, 10]]))), ())"
    by blast
  then show ?thesis using h s by simp
qed

section \<open>Modules and parameters\<close>

text \<open>
  Modules and parameters are objects with an identity. A module object holds two ordered
  dictionaries: \<open>_modules\<close> (child name to module or \<open>None\<close>) and \<open>_parameters\<close> (name to
  parameter or \<open>None\<close>). No function of this repository changes \<open>_modules\<close>, so the module
  graph is given as its unfolding: a tree whose nodes carry the identity of the module
  object; a module object shared by two parents occurs twice, with the same identity. (The
  unfolding is finite: the graph has no cycle.) \<open>_parameters\<close> and the parameter objects
  change; they live in a heap, by identity. PyTorch accepts neither an empty name nor a name
  with a dot for a child or a parameter.
\<close>

datatype module = Module (mid: nat) (children: "(pystr \<times> module option) list")

text \<open>
  A parameter object: uninitialized (\<open>UninitializedParameter\<close>, which has an element type
  and no shape) or backed by a tensor, and the attribute \<open>_file_path\<close> when it has one.
\<close>

datatype 'a pstate = Lazy pystr | Backed "'a tensor"

record 'a param_obj =
  data :: "'a pstate"
  file_path :: "pystr option"

text \<open>
  What the run leaves behind, in order, kept for the statements about it: a file opened
  for reading, a \<open>copy_\<close> into a parameter, an attribute of a module set to a new parameter.
\<close>

datatype event = Read pystr | Copy nat | Replace nat pystr

record 'a heap =
  slots :: "nat \<Rightarrow> (pystr \<times> nat option) list"
  objs :: "nat \<Rightarrow> 'a param_obj"
  next_pid :: nat
  rng :: nat
  log :: "event list"

text \<open>
  The tensor library, as far as the elements of a tensor are concerned: what
  \<open>torch.empty\<close> allocates, what \<open>copy_\<close> writes (the source broadcast to the shape and
  cast to the element type of the destination), what \<open>torch.randn\<close> samples from a
  generator state, a product by a number, a cast; the default element type, and the names
  \<open>n\<close> for which \<open>getattr(torch, n)\<close> is an element type.
\<close>

record 'a torch =
  empty_payload :: "nat list \<Rightarrow> pystr \<Rightarrow> 'a"
  copy_payload :: "'a tensor \<Rightarrow> nat list \<Rightarrow> pystr \<Rightarrow> 'a"
  randn_payload :: "nat \<Rightarrow> nat list \<Rightarrow> 'a \<times> nat"
  mul_payload :: "real \<Rightarrow> 'a tensor \<Rightarrow> 'a"
  cast_payload :: "'a tensor \<Rightarrow> pystr \<Rightarrow> 'a"
  default_dtype :: pystr
  is_dtype :: "pystr \<Rightarrow> bool"

subsection \<open>Enumeration: \<open>named_modules\<close>, \<open>modules\<close>, \<open>named_parameters\<close>, \<open>parameters\<close>\<close>

text \<open>\<open>prefix + ('.' if prefix else '') + name\<close>\<close>

definition qualify :: "pystr \<Rightarrow> pystr \<Rightarrow> pystr" where
  "qualify prefix name = prefix @ (if prefix = [] then [] else asc ''.'') @ name"

text \<open>
  \<open>Module.named_modules(memo, prefix)\<close>: the module, then the modules below each child that
  is not \<open>None\<close>, in order; a module object already in \<open>memo\<close> is not visited again.
\<close>

fun named_modules_memo :: "nat list \<Rightarrow> pystr \<Rightarrow> module \<Rightarrow> (pystr \<times> module) list \<times> nat list"
  and named_modules_children ::
    "nat list \<Rightarrow> pystr \<Rightarrow> (pystr \<times> module option) list \<Rightarrow> (pystr \<times> module) list \<times> nat list" where
  "named_modules_memo memo prefix (Module i cs) =
     (if i \<in> set memo then ([], memo)
      else (case named_modules_children (i # memo) prefix cs of
              (r, memo') \<Rightarrow> ((prefix, Module i cs) # r, memo')))"
| "named_modules_children memo prefix [] = ([], memo)"
| "named_modules_children memo prefix ((name, None) # cs) =
     named_modules_children memo prefix cs"
| "named_modules_children memo prefix ((name, Some m) # cs) =
     (case named_modules_memo memo (qualify prefix name) m of
        (r1, memo1) \<Rightarrow>
          (case named_modules_children memo1 prefix cs of
             (r2, memo2) \<Rightarrow> (r1 @ r2, memo2)))"

definition named_modules :: "module \<Rightarrow> (pystr \<times> module) list" where
  "named_modules m = fst (named_modules_memo [] [] m)"

definition modules :: "module \<Rightarrow> module list" where
  "modules m = map snd (named_modules m)"

text \<open>
  \<open>Module._named_members\<close> over \<open>_parameters\<close>: for each module of \<open>named_modules\<close>, its
  parameters in order; \<open>None\<close> and a parameter object already yielded are skipped.
\<close>

fun members_of ::
  "nat list \<Rightarrow> pystr \<Rightarrow> (pystr \<times> nat option) list \<Rightarrow> (pystr \<times> nat) list \<times> nat list" where
  "members_of memo module_prefix [] = ([], memo)"
| "members_of memo module_prefix ((k, None) # ms) = members_of memo module_prefix ms"
| "members_of memo module_prefix ((k, Some v) # ms) =
     (if v \<in> set memo then members_of memo module_prefix ms
      else (case members_of (v # memo) module_prefix ms of
              (r, memo') \<Rightarrow> ((qualify module_prefix k, v) # r, memo')))"

fun named_members ::
  "'a heap \<Rightarrow> nat list \<Rightarrow> (pystr \<times> module) list \<Rightarrow> (pystr \<times> nat) list" where
  "named_members h memo [] = []"
| "named_members h memo ((module_prefix, m) # ms) =
     (case members_of memo module_prefix (slots h (mid m)) of
        (r, memo') \<Rightarrow> r @ named_members h memo' ms)"

definition named_parameters :: "'a heap \<Rightarrow> module \<Rightarrow> (pystr \<times> nat) list" where
  "named_parameters h m = named_members h [] (named_modules m)"

definition parameters :: "'a heap \<Rightarrow> module \<Rightarrow> nat list" where
  "parameters h m = map snd (named_parameters h m)"

subsection \<open>Copying into a parameter\<close>

text \<open>
  \<open>copy_\<close> accepts a source whose shape broadcasts to the destination's: aligned at the
  last dimension, each size of the source is the destination's or 1, and the source has no
  more dimensions.
\<close>

fun expandable_rev :: "nat list \<Rightarrow> nat list \<Rightarrow> bool" where
  "expandable_rev [] ds = True"
| "expandable_rev (s # ss) [] = False"
| "expandable_rev (s # ss) (d # ds) = ((s = d \<or> s = 1) \<and> expandable_rev ss ds)"

definition expandable :: "nat list \<Rightarrow> nat list \<Rightarrow> bool" where
  "expandable src dst = expandable_rev (rev src) (rev dst)"

definition set_obj :: "nat \<Rightarrow> 'a param_obj \<Rightarrow> 'a heap \<Rightarrow> 'a heap" where
  "set_obj p obj h = h\<lparr>objs := (objs h)(p := obj)\<rparr>"

text \<open>\<open>if torch.nn.parameter.is_lazy(param): param.materialize(input_param.shape)\<close>\<close>

definition materialize_if_lazy :: "'a torch \<Rightarrow> nat \<Rightarrow> 'a tensor \<Rightarrow> 'a heap \<Rightarrow> 'a heap" where
  "materialize_if_lazy T param input_param h =
     (case data (objs h param) of
        Lazy dt \<Rightarrow>
          set_obj param
            ((objs h param)\<lparr>data := Backed \<lparr>shape = shape input_param, dtype = dt,
                payload = empty_payload T (shape input_param) dt\<rparr>\<rparr>) h
      | Backed t \<Rightarrow> h)"

text \<open>\<open>param.copy_(input_param)\<close>\<close>

definition param_copy :: "'a torch \<Rightarrow> nat \<Rightarrow> 'a tensor \<Rightarrow> 'a heap \<Rightarrow> (error + unit) \<times> 'a heap" where
  "param_copy T param input_param h =
     (case data (objs h param) of
        Lazy dt \<Rightarrow> (Inl ValueError, h)
      | Backed t \<Rightarrow>
          if expandable (shape input_param) (shape t)
          then (Inr (),
                (set_obj param
                   ((objs h param)\<lparr>data := Backed \<lparr>shape = shape t, dtype = dtype t,
                       payload = copy_payload T input_param (shape t) (dtype t)\<rparr>\<rparr>) h)
                \<lparr>log := log h @ [Copy param]\<rparr>)
          else (Inl RuntimeError, h))"

section \<open>The materializer\<close>

text \<open>\<open>j[key]\<close> for a string \<open>key\<close>, and \<open>s.endswith(suffix)\<close>.\<close>

definition json_subscript :: "json \<Rightarrow> pystr \<Rightarrow> error + json" where
  "json_subscript j key =
     (case j of
        JDict d \<Rightarrow> (case map_of d key of None \<Rightarrow> Inl KeyError | Some v \<Rightarrow> Inr v)
      | _ \<Rightarrow> Inl TypeError)"

definition endswith :: "pystr \<Rightarrow> pystr \<Rightarrow> bool" where
  "endswith s suffix \<longleftrightarrow>
     length suffix \<le> length s \<and> drop (length s - length suffix) s = suffix"

text \<open>The argument of \<open>torch.randn\<close>: a list of sizes, or one size.\<close>

fun json_dims :: "json list \<Rightarrow> error + nat list" where
  "json_dims [] = Inr []"
| "json_dims (JInt n # r) =
     (if n < 0 then Inl RuntimeError
      else (case json_dims r of Inl e \<Rightarrow> Inl e | Inr s \<Rightarrow> Inr (nat n # s)))"
| "json_dims (_ # r) = Inl TypeError"

definition randn_shape :: "json \<Rightarrow> error + nat list" where
  "randn_shape j =
     (case j of
        JList l \<Rightarrow> json_dims l
      | JInt n \<Rightarrow> if n < 0 then Inl RuntimeError else Inr [nat n]
      | _ \<Rightarrow> Inl TypeError)"

text \<open>A JSON value as the left factor of a product with a tensor.\<close>

definition json_number :: "json \<Rightarrow> real option" where
  "json_number j =
     (case j of
        JInt n \<Rightarrow> Some (real_of_int n)
      | JFloat x \<Rightarrow> Some x
      | JBool b \<Rightarrow> Some (if b then 1 else 0)
      | _ \<Rightarrow> None)"

text \<open>
  The branch of \<open>materialize\<close> for a path that ends in \<open>.empty_json\<close>, in the order of
  evaluation: \<open>json.load\<close>, \<open>empty_json['init_std']\<close>, \<open>torch.randn(empty_json['shape'])\<close>, the
  product, \<open>getattr(torch, empty_json['torch_dtype'])\<close>, the cast. (A name of \<open>torch\<close> that is
  no element type is taken with the names \<open>torch\<close> does not have.)
\<close>

definition read_empty_json ::
  "'a torch \<Rightarrow> 'a filesystem \<Rightarrow> pystr \<Rightarrow> 'a heap \<Rightarrow> (error + 'a tensor) \<times> 'a heap" where
  "read_empty_json T fs path h0 =
     (let h = h0\<lparr>log := log h0 @ [Read path]\<rparr> in
      case json_load fs path of
        Inl e \<Rightarrow> (Inl e, h)
      | Inr empty_json \<Rightarrow>
     (case json_subscript empty_json (asc ''init_std'') of
        Inl e \<Rightarrow> (Inl e, h)
      | Inr init_std \<Rightarrow>
     (case json_subscript empty_json (asc ''shape'') of
        Inl e \<Rightarrow> (Inl e, h)
      | Inr shape_json \<Rightarrow>
     (case randn_shape shape_json of
        Inl e \<Rightarrow> (Inl e, h)
      | Inr sh \<Rightarrow>
     (case randn_payload T (rng h) sh of
        (pl, g) \<Rightarrow>
     (let h = h\<lparr>rng := g\<rparr>;
          r = \<lparr>shape = sh, dtype = default_dtype T, payload = pl\<rparr>
      in case json_number init_std of
        None \<Rightarrow> (Inl TypeError, h)
      | Some x \<Rightarrow>
     (let input_param = r\<lparr>payload := mul_payload T x r\<rparr>
      in case json_subscript empty_json (asc ''torch_dtype'') of
        Inl e \<Rightarrow> (Inl e, h)
      | Inr (JStr name) \<Rightarrow>
          if is_dtype T name
          then (Inr (input_param\<lparr>dtype := name, payload := cast_payload T input_param name\<rparr>), h)
          else (Inl AttributeError, h)
      | Inr _ \<Rightarrow> (Inl TypeError, h))))))))"

text \<open>The other branch: \<open>torch.load(param._file_path)\<close>.\<close>

definition read_torch_file ::
  "'a filesystem \<Rightarrow> pystr \<Rightarrow> 'a heap \<Rightarrow> (error + 'a tensor) \<times> 'a heap" where
  "read_torch_file fs path h = (torch_load fs path, h\<lparr>log := log h @ [Read path]\<rparr>)"

definition read_input ::
  "'a torch \<Rightarrow> 'a filesystem \<Rightarrow> pystr \<Rightarrow> 'a heap \<Rightarrow> (error + 'a tensor) \<times> 'a heap" where
  "read_input T fs path h =
     (if endswith path (asc ''.empty_json'') then read_empty_json T fs path h
      else read_torch_file fs path h)"

text \<open>The body of the loop of \<open>materialize\<close>, for one parameter.\<close>

definition materialize_param ::
  "'a torch \<Rightarrow> 'a filesystem \<Rightarrow> nat \<Rightarrow> 'a heap \<Rightarrow> (error + unit) \<times> 'a heap" where
  "materialize_param T fs param h =
     (case file_path (objs h param) of
        None \<Rightarrow> (Inr (), h)
      | Some path \<Rightarrow>
          (case read_input T fs path h of
             (Inl e, h1) \<Rightarrow> (Inl e, h1)
           | (Inr input_param, h1) \<Rightarrow>
               param_copy T param input_param (materialize_if_lazy T param input_param h1)))"

fun materialize_loop ::
  "'a torch \<Rightarrow> 'a filesystem \<Rightarrow> nat list \<Rightarrow> 'a heap \<Rightarrow> (error + unit) \<times> 'a heap" where
  "materialize_loop T fs [] h = (Inr (), h)"
| "materialize_loop T fs (param # rest) h =
     (case materialize_param T fs param h of
        (Inl e, h') \<Rightarrow> (Inl e, h')
      | (Inr _, h') \<Rightarrow> materialize_loop T fs rest h')"

definition materialize ::
  "'a torch \<Rightarrow> 'a filesystem \<Rightarrow> module \<Rightarrow> 'a heap \<Rightarrow> (error + unit) \<times> 'a heap" where
  "materialize T fs self h = materialize_loop T fs (parameters h self) h"

subsection \<open>What one step of the materializer changes\<close>

lemma expandable_refl: "expandable s s"
proof -
  have "expandable_rev r r" for r :: "nat list" by (induction r) auto
  then show ?thesis by (simp add: expandable_def)
qed

lemma read_empty_json_frame:
  "read_empty_json T fs path h = (r, h') \<Longrightarrow>
   objs h' = objs h \<and> slots h' = slots h \<and> next_pid h' = next_pid h \<and>
   log h' = log h @ [Read path]"
  by (auto simp: read_empty_json_def Let_def split: sum.splits prod.splits option.splits
      json.splits if_splits)

lemma read_input_frame:
  "read_input T fs path h = (r, h') \<Longrightarrow>
   objs h' = objs h \<and> slots h' = slots h \<and> next_pid h' = next_pid h \<and>
   log h' = log h @ [Read path]"
  using read_empty_json_frame[of T fs path h r h']
  by (auto simp: read_input_def read_torch_file_def split: if_splits)

text \<open>Whether the input is obtained, and its shape, do not depend on the heap.\<close>

definition same_input :: "error + 'a tensor \<Rightarrow> error + 'a tensor \<Rightarrow> bool" where
  "same_input a b \<longleftrightarrow>
     (case a of
        Inl e \<Rightarrow> b = Inl e
      | Inr t \<Rightarrow> (case b of Inl _ \<Rightarrow> False | Inr u \<Rightarrow> shape u = shape t))"

lemma read_empty_json_same:
  "same_input (fst (read_empty_json T fs path h)) (fst (read_empty_json T fs path k))"
  by (auto simp: read_empty_json_def same_input_def Let_def
      split: sum.splits prod.splits option.splits json.splits if_splits)

lemma read_input_same:
  "same_input (fst (read_input T fs path h)) (fst (read_input T fs path k))"
  using read_empty_json_same[of T fs path h k]
  by (auto simp: read_input_def read_torch_file_def same_input_def split: sum.splits)


definition deferred_events :: "'a heap \<Rightarrow> nat \<Rightarrow> event list" where
  "deferred_events h p =
     (case file_path (objs h p) of None \<Rightarrow> [] | Some path \<Rightarrow> [Read path, Copy p])"

lemma copy_after_lazy:
  "param_copy T p inp (materialize_if_lazy T p inp h) = (r, h') \<Longrightarrow>
   slots h' = slots h \<and> next_pid h' = next_pid h \<and>
   (\<forall>q. file_path (objs h' q) = file_path (objs h q)) \<and>
   (\<forall>q. q \<noteq> p \<longrightarrow> objs h' q = objs h q) \<and>
   (r \<noteq> Inr () \<longrightarrow> h' = h) \<and>
   (r = Inr () \<longrightarrow> log h' = log h @ [Copy p] \<and>
      (\<exists>t. data (objs h' p) = Backed t \<and> expandable (shape inp) (shape t))) \<and>
   (\<forall>t. data (objs h p) = Backed t \<longrightarrow>
      (\<exists>t'. data (objs h' p) = Backed t' \<and> shape t' = shape t) \<and>
      (r = Inr ()) = expandable (shape inp) (shape t))"
  by (cases "data (objs h p)")
     (auto simp: param_copy_def materialize_if_lazy_def set_obj_def expandable_refl
       split: if_splits)

lemma materialize_param_frame:
  assumes "materialize_param T fs p h = (r, h')"
  shows "slots h' = slots h \<and> next_pid h' = next_pid h \<and>
    (\<forall>q. file_path (objs h' q) = file_path (objs h q)) \<and>
    (\<forall>q. q \<noteq> p \<longrightarrow> objs h' q = objs h q) \<and>
    (r \<noteq> Inr () \<longrightarrow> objs h' = objs h) \<and>
    (\<forall>q t. data (objs h q) = Backed t \<longrightarrow>
       (\<exists>t'. data (objs h' q) = Backed t' \<and> shape t' = shape t))"
proof (cases "file_path (objs h p)")
  case None
  with assms have "h' = h" by (simp add: materialize_param_def)
  then show ?thesis by simp
next
  case (Some path)
  obtain ri h1 where rd: "read_input T fs path h = (ri, h1)" by (cases "read_input T fs path h")
  note fr = read_input_frame[OF rd]
  show ?thesis
  proof (cases ri)
    case (Inl e)
    with assms Some rd have "h' = h1" by (simp add: materialize_param_def)
    with fr show ?thesis by simp
  next
    case (Inr inp)
    with assms Some rd have c: "param_copy T p inp (materialize_if_lazy T p inp h1) = (r, h')"
      by (simp add: materialize_param_def)
    note cf = copy_after_lazy[OF c]
    have "\<forall>q t. data (objs h q) = Backed t \<longrightarrow>
       (\<exists>t'. data (objs h' q) = Backed t' \<and> shape t' = shape t)"
    proof (intro allI impI)
      fix q t assume "data (objs h q) = Backed t"
      then show "\<exists>t'. data (objs h' q) = Backed t' \<and> shape t' = shape t"
        using cf fr by (cases "q = p") auto
    qed
    then show ?thesis using cf fr by auto
  qed
qed


text \<open>A parameter whose resolution will succeed: its input is obtained and fits its tensor.\<close>

definition ready :: "'a torch \<Rightarrow> 'a filesystem \<Rightarrow> 'a heap \<Rightarrow> nat \<Rightarrow> bool" where
  "ready T fs h p \<longleftrightarrow>
     (case file_path (objs h p) of
        None \<Rightarrow> True
      | Some path \<Rightarrow>
          (case fst (read_input T fs path h) of
             Inl e \<Rightarrow> False
           | Inr inp \<Rightarrow>
               (case data (objs h p) of
                  Lazy dt \<Rightarrow> False
                | Backed t \<Rightarrow> expandable (shape inp) (shape t))))"

lemma materialize_param_log:
  assumes "materialize_param T fs p h = (Inr (), h')"
  shows "log h' = log h @ deferred_events h p"
proof (cases "file_path (objs h p)")
  case None
  with assms show ?thesis by (simp add: materialize_param_def deferred_events_def)
next
  case (Some path)
  obtain ri h1 where rd: "read_input T fs path h = (ri, h1)" by (cases "read_input T fs path h")
  note fr = read_input_frame[OF rd]
  from assms Some rd obtain inp where i: "ri = Inr inp"
    by (cases ri) (auto simp: materialize_param_def)
  with assms Some rd have c: "param_copy T p inp (materialize_if_lazy T p inp h1) = (Inr (), h')"
    by (simp add: materialize_param_def)
  from copy_after_lazy[OF c] fr Some show ?thesis by (simp add: deferred_events_def)
qed

lemma materialize_param_ready:
  assumes "materialize_param T fs p h = (Inr (), h')"
  shows "ready T fs h' p"
proof (cases "file_path (objs h p)")
  case None
  with assms show ?thesis by (simp add: materialize_param_def ready_def)
next
  case (Some path)
  obtain ri h1 where rd: "read_input T fs path h = (ri, h1)" by (cases "read_input T fs path h")
  note fr = read_input_frame[OF rd]
  from assms Some rd obtain inp where i: "ri = Inr inp"
    by (cases ri) (auto simp: materialize_param_def)
  with assms Some rd have c: "param_copy T p inp (materialize_if_lazy T p inp h1) = (Inr (), h')"
    by (simp add: materialize_param_def)
  from copy_after_lazy[OF c] obtain t where
    t: "data (objs h' p) = Backed t" "expandable (shape inp) (shape t)" by auto
  have fp: "file_path (objs h' p) = Some path"
    using copy_after_lazy[OF c] fr Some by simp
  from read_input_same[of T fs path h h'] rd i obtain u where
    u: "fst (read_input T fs path h') = Inr u" "shape u = shape inp"
    by (auto simp: same_input_def split: sum.splits)
  show ?thesis using fp t u by (simp add: ready_def)
qed

lemma ready_preserved:
  assumes "ready T fs h p" "materialize_param T fs q h = (r, h')"
  shows "ready T fs h' p"
proof (cases "file_path (objs h p)")
  case None
  with materialize_param_frame[OF assms(2)] show ?thesis by (simp add: ready_def)
next
  case (Some path)
  from assms(1) Some obtain inp t where
    a: "fst (read_input T fs path h) = Inr inp" "data (objs h p) = Backed t"
       "expandable (shape inp) (shape t)"
    by (auto simp: ready_def split: sum.splits pstate.splits)
  from materialize_param_frame[OF assms(2)] a(2) obtain t' where
    t': "data (objs h' p) = Backed t'" "shape t' = shape t" by blast
  have fp: "file_path (objs h' p) = Some path"
    using materialize_param_frame[OF assms(2)] Some by simp
  from read_input_same[of T fs path h h'] a(1) obtain u where
    u: "fst (read_input T fs path h') = Inr u" "shape u = shape inp"
    by (auto simp: same_input_def split: sum.splits)
  show ?thesis using fp t' u a(3) by (simp add: ready_def)
qed

lemma ready_succeeds:
  assumes "ready T fs h p"
  shows "\<exists>h'. materialize_param T fs p h = (Inr (), h')"
proof (cases "file_path (objs h p)")
  case None
  then show ?thesis by (simp add: materialize_param_def)
next
  case (Some path)
  from assms Some obtain inp t where
    a: "fst (read_input T fs path h) = Inr inp" "data (objs h p) = Backed t"
       "expandable (shape inp) (shape t)"
    by (auto simp: ready_def split: sum.splits pstate.splits)
  obtain h1 where rd: "read_input T fs path h = (Inr inp, h1)"
    using a(1) by (cases "read_input T fs path h") auto
  note fr = read_input_frame[OF rd]
  obtain r h' where c: "param_copy T p inp (materialize_if_lazy T p inp h1) = (r, h')"
    by (cases "param_copy T p inp (materialize_if_lazy T p inp h1)")
  have "data (objs h1 p) = Backed t" using a(2) fr by simp
  with copy_after_lazy[OF c] a(3) have "r = Inr ()" by blast
  with c rd Some show ?thesis by (simp add: materialize_param_def)
qed

subsection \<open>The loop\<close>

lemma materialize_loop_frame:
  "materialize_loop T fs ps h = (r, h') \<Longrightarrow>
   slots h' = slots h \<and> next_pid h' = next_pid h \<and>
   (\<forall>q. file_path (objs h' q) = file_path (objs h q)) \<and>
   (\<forall>q. q \<notin> set ps \<longrightarrow> objs h' q = objs h q)"
proof (induction ps arbitrary: h)
  case Nil
  then show ?case by simp
next
  case (Cons p ps)
  obtain r1 h1 where s: "materialize_param T fs p h = (r1, h1)"
    by (cases "materialize_param T fs p h")
  note f = materialize_param_frame[OF s]
  show ?case
  proof (cases r1)
    case (Inl e)
    with Cons.prems s have "h' = h1" by simp
    with f show ?thesis by simp
  next
    case (Inr u)
    with Cons.prems s have "materialize_loop T fs ps h1 = (r, h')" by simp
    from Cons.IH[OF this] f show ?thesis by simp
  qed
qed

lemma ready_preserved_loop:
  "ready T fs h p \<Longrightarrow> materialize_loop T fs ps h = (r, h') \<Longrightarrow> ready T fs h' p"
proof (induction ps arbitrary: h)
  case Nil
  then show ?case by simp
next
  case (Cons q ps)
  obtain r1 h1 where s: "materialize_param T fs q h = (r1, h1)"
    by (cases "materialize_param T fs q h")
  have r1: "ready T fs h1 p" using ready_preserved[OF Cons.prems(1) s] .
  show ?case
  proof (cases r1)
    case (Inl e)
    with Cons.prems s have "h' = h1" by simp
    with r1 show ?thesis by simp
  next
    case (Inr u)
    with Cons.prems s have "materialize_loop T fs ps h1 = (r, h')" by simp
    from Cons.IH[OF r1 this] show ?thesis .
  qed
qed

lemma deferred_events_cong:
  "\<forall>q. file_path (objs h' q) = file_path (objs h q) \<Longrightarrow> deferred_events h' = deferred_events h"
  by (auto simp: deferred_events_def fun_eq_iff)

lemma materialize_loop_success:
  "materialize_loop T fs ps h = (Inr (), h') \<Longrightarrow>
   log h' = log h @ concat (map (deferred_events h) ps) \<and> (\<forall>p \<in> set ps. ready T fs h' p)"
proof (induction ps arbitrary: h)
  case Nil
  then show ?case by simp
next
  case (Cons p ps)
  obtain r1 h1 where s: "materialize_param T fs p h = (r1, h1)"
    by (cases "materialize_param T fs p h")
  with Cons.prems have r1: "r1 = Inr ()" and l: "materialize_loop T fs ps h1 = (Inr (), h')"
    by (auto split: sum.splits)
  note f = materialize_param_frame[OF s]
  have ev: "deferred_events h1 = deferred_events h" using f by (intro deferred_events_cong) simp
  have "ready T fs h1 p" using materialize_param_ready s r1 by blast
  then have "ready T fs h' p" using ready_preserved_loop l by blast
  moreover have "log h1 = log h @ deferred_events h p"
    using materialize_param_log s r1 by blast
  ultimately show ?case using Cons.IH[OF l] ev by simp
qed

lemma materialize_loop_ready:
  "\<forall>p \<in> set ps. ready T fs h p \<Longrightarrow>
   \<exists>h'. materialize_loop T fs ps h = (Inr (), h')"
proof (induction ps arbitrary: h)
  case Nil
  then show ?case by simp
next
  case (Cons p ps)
  from Cons.prems obtain h1 where s: "materialize_param T fs p h = (Inr (), h1)"
    using ready_succeeds[of T fs h p] by auto
  have "\<forall>q \<in> set ps. ready T fs h1 q"
    using Cons.prems ready_preserved[OF _ s] by auto
  from Cons.IH[OF this] s show ?case by simp
qed

lemma named_members_slots:
  "slots h' = slots h \<Longrightarrow> named_members h' memo ms = named_members h memo ms"
  by (induction h memo ms rule: named_members.induct) (auto split: prod.splits)

lemma parameters_slots: "slots h' = slots h \<Longrightarrow> parameters h' m = parameters h m"
  unfolding parameters_def named_parameters_def by (simp only: named_members_slots[of h' h])

section \<open>Properties of the materializer\<close>


lemma materialize_loop_append:
  "materialize_loop T fs (xs @ ys) h =
     (case materialize_loop T fs xs h of
        (Inl e, h') \<Rightarrow> (Inl e, h')
      | (Inr u, h') \<Rightarrow> materialize_loop T fs ys h')"
  by (induction xs arbitrary: h) (auto split: prod.splits sum.splits)

text \<open>Concrete inputs: a tensor library over numbers, one module with one or two parameters.\<close>

definition T0 :: "nat torch" where
  "T0 = \<lparr>empty_payload = (\<lambda>sh d. 0), copy_payload = (\<lambda>t sh d. payload t),
          randn_payload = (\<lambda>g sh. (g, Suc g)), mul_payload = (\<lambda>x t. payload t),
          cast_payload = (\<lambda>t d. payload t), default_dtype = asc ''float32'',
          is_dtype = (\<lambda>n. n = asc ''float32'' \<or> n = asc ''float16'')\<rparr>"

definition lazy0 :: "pystr option \<Rightarrow> nat param_obj" where
  "lazy0 path = \<lparr>data = Lazy (asc ''float32''), file_path = path\<rparr>"

definition fsA :: "nat filesystem" where
  "fsA = \<lparr>dirs = {asc ''d''}, files = [asc ''d/p0.w'' \<mapsto> TorchFile (tz 3)]\<rparr>"

definition hA :: "nat heap" where
  "hA = \<lparr>slots = (\<lambda>i. if i = 0 then [(asc ''w'', Some 0)] else []),
          objs = (\<lambda>p. lazy0 (if p = 0 then Some (asc ''d/p0.w'') else None)),
          next_pid = 1, rng = 0, log = []\<rparr>"

definition fsB :: "nat filesystem" where
  "fsB = \<lparr>dirs = {asc ''d''}, files = [asc ''d/p1.w2'' \<mapsto> TorchFile (tz 2)]\<rparr>"

definition hB :: "nat heap" where
  "hB = \<lparr>slots = (\<lambda>i. if i = 0 then [(asc ''w1'', Some 0), (asc ''w2'', Some 1)] else []),
          objs = (\<lambda>p. lazy0 (if p = 0 then Some (asc ''d/p0.w1'')
                              else if p = 1 then Some (asc ''d/p1.w2'') else None)),
          next_pid = 2, rng = 0, log = []\<rparr>"

lemmas module_eval = parameters_def named_parameters_def named_modules_def modules_def qualify_def

lemmas materialize_eval = materialize_def materialize_param_def read_input_def
  read_torch_file_def torch_load_def open_read_def endswith_def asc_def materialize_if_lazy_def
  param_copy_def set_obj_def expandable_def

lemma parameters_hA: "parameters hA (Module 0 []) = [0]"
  by (simp add: module_eval hA_def)

lemma parameters_hB: "parameters hB (Module 0 []) = [0, 1]"
  by (simp add: module_eval hB_def)

lemma materialize_hA:
  "materialize T0 fsA (Module 0 []) hA =
     (Inr (), hA\<lparr>objs := (objs hA)(0 := \<lparr>data = Backed \<lparr>shape = [3], dtype = asc ''float32'', payload = 3\<rparr>,
                                          file_path = Some (asc ''d/p0.w'')\<rparr>),
                 log := [Read (asc ''d/p0.w''), Copy 0]\<rparr>)"
  unfolding materialize_def parameters_hA
  by (simp add: materialize_param_def read_input_def
  read_torch_file_def torch_load_def open_read_def endswith_def asc_def materialize_if_lazy_def
  param_copy_def set_obj_def expandable_def hA_def fsA_def T0_def tz_def lazy0_def)


lemma materialize_hA_twice:
  "log (snd (materialize T0 fsA (Module 0 []) (snd (materialize T0 fsA (Module 0 []) hA)))) =
     [Read (asc ''d/p0.w''), Copy 0, Read (asc ''d/p0.w''), Copy 0]"
proof -
  have "slots (snd (materialize T0 fsA (Module 0 []) hA)) = slots hA"
    by (simp add: materialize_hA)
  then have p: "parameters (snd (materialize T0 fsA (Module 0 []) hA)) (Module 0 []) = [0]"
    using parameters_slots parameters_hA by metis
  show ?thesis
    unfolding materialize_def[of T0 fsA "Module 0 []" "snd (materialize T0 fsA (Module 0 []) hA)"] p
    unfolding materialize_hA
    by (simp add: materialize_param_def read_input_def
      read_torch_file_def torch_load_def open_read_def endswith_def asc_def materialize_if_lazy_def
      param_copy_def set_obj_def expandable_def hA_def fsA_def T0_def tz_def lazy0_def)
qed

text \<open>
  One uninitialized parameter whose \<open>_file_path\<close> names an existing tensor file. After
  \<open>materialize\<close> the parameter still has its \<open>_file_path\<close>, and a second call opens the
  file and copies again.
\<close>

theorem materialize_discards_counterexample:
  "fst (materialize T0 fsA (Module 0 []) hA) = Inr () \<and>
   file_path (objs hA 0) = Some (asc ''d/p0.w'') \<and>
   file_path (objs (snd (materialize T0 fsA (Module 0 []) hA)) 0) = Some (asc ''d/p0.w'') \<and>
   log (snd (materialize T0 fsA (Module 0 []) hA)) = [Read (asc ''d/p0.w''), Copy 0] \<and>
   log (snd (materialize T0 fsA (Module 0 []) (snd (materialize T0 fsA (Module 0 []) hA)))) =
     [Read (asc ''d/p0.w''), Copy 0, Read (asc ''d/p0.w''), Copy 0]"
  unfolding materialize_hA_twice unfolding materialize_hA
  by (simp add: hA_def lazy0_def)

text \<open>
  C1, as the code has it. \<open>materialize\<close> never discards the deferred-source annotation:
  after the call, returned or raised, every parameter has the \<open>_file_path\<close> it had before.
  So a second call right after a first one that returned is not a no-op: it returns as
  well, and it opens again every file and copies again into every parameter that the
  first call did, in the same order (for each parameter with a \<open>_file_path\<close>, in the order
  of \<open>parameters()\<close>, one read of its path and one copy).
\<close>

theorem materialize_keeps_annotations:
  "(\<forall>p. file_path (objs (snd (materialize T fs m h)) p) = file_path (objs h p)) \<and>
   (fst (materialize T fs m h) = Inr () \<longrightarrow>
      log (snd (materialize T fs m h)) =
        log h @ concat (map (deferred_events h) (parameters h m)) \<and>
      fst (materialize T fs m (snd (materialize T fs m h))) = Inr () \<and>
      log (snd (materialize T fs m (snd (materialize T fs m h)))) =
        log (snd (materialize T fs m h)) @ concat (map (deferred_events h) (parameters h m)))"
proof (intro conjI impI allI)
  obtain r h1 where m1: "materialize_loop T fs (parameters h m) h = (r, h1)"
    by (cases "materialize_loop T fs (parameters h m) h")
  note f1 = materialize_loop_frame[OF m1]
  have e1: "materialize T fs m h = (r, h1)" using m1 by (simp add: materialize_def)
  show "file_path (objs (snd (materialize T fs m h)) p) = file_path (objs h p)" for p
    using f1 e1 by simp
  assume "fst (materialize T fs m h) = Inr ()"
  with e1 have r: "r = Inr ()" by simp
  note s1 = materialize_loop_success[OF m1[unfolded r]]
  show "log (snd (materialize T fs m h)) = log h @ concat (map (deferred_events h) (parameters h m))"
    using s1 e1 by simp
  have ps: "parameters h1 m = parameters h m" using f1 by (intro parameters_slots) simp
  from s1 obtain h2 where m2: "materialize_loop T fs (parameters h m) h1 = (Inr (), h2)"
    using materialize_loop_ready[of "parameters h m" T fs h1] by blast
  have e2: "materialize T fs m h1 = (Inr (), h2)" using m2 ps by (simp add: materialize_def)
  have ev: "deferred_events h1 = deferred_events h" using f1 by (intro deferred_events_cong) simp
  show "fst (materialize T fs m (snd (materialize T fs m h))) = Inr ()"
    using e1 e2 by simp
  show "log (snd (materialize T fs m (snd (materialize T fs m h)))) =
        log (snd (materialize T fs m h)) @ concat (map (deferred_events h) (parameters h m))"
    using e1 e2 materialize_loop_success[OF m2] ev by simp
qed

theorem materialize_keeps_annotations_witness:
  "fst (materialize T0 fsA (Module 0 []) hA) = Inr () \<and>
   concat (map (deferred_events hA) (parameters hA (Module 0 []))) = [Read (asc ''d/p0.w''), Copy 0] \<and>
   fst (materialize T0 fsA (Module 0 []) (snd (materialize T0 fsA (Module 0 []) hA))) = Inr () \<and>
   log (snd (materialize T0 fsA (Module 0 []) (snd (materialize T0 fsA (Module 0 []) hA)))) =
     log (snd (materialize T0 fsA (Module 0 []) hA)) @ [Read (asc ''d/p0.w''), Copy 0]"
proof -
  have a: "fst (materialize T0 fsA (Module 0 []) hA) = Inr ()"
    by (simp add: materialize_hA)
  have b: "concat (map (deferred_events hA) (parameters hA (Module 0 []))) =
      [Read (asc ''d/p0.w''), Copy 0]"
    unfolding parameters_hA by (simp add: deferred_events_def hA_def lazy0_def)
  from materialize_keeps_annotations[of T0 fsA "Module 0 []" hA] a b show ?thesis by simp
qed

text \<open>
  Two uninitialized parameters with a \<open>_file_path\<close> each; the file of the first is missing,
  the file of the second is there. \<open>materialize\<close> raises at the first and leaves the second
  uninitialized: its file is never opened.
\<close>

theorem materialize_isolation_counterexample:
  "parameters hB (Module 0 []) = [0, 1] \<and>
   file_path (objs hB 0) = Some (asc ''d/p0.w1'') \<and>
   file_path (objs hB 1) = Some (asc ''d/p1.w2'') \<and>
   torch_load fsB (asc ''d/p0.w1'') = Inl FileNotFoundError \<and>
   torch_load fsB (asc ''d/p1.w2'') = Inr (tz 2) \<and>
   fst (materialize T0 fsB (Module 0 []) hB) = Inl FileNotFoundError \<and>
   data (objs (snd (materialize T0 fsB (Module 0 []) hB)) 1) = Lazy (asc ''float32'') \<and>
   log (snd (materialize T0 fsB (Module 0 []) hB)) = [Read (asc ''d/p0.w1'')]"
  unfolding materialize_def parameters_hB
  by (simp add: materialize_param_def read_input_def
      read_torch_file_def torch_load_def open_read_def endswith_def asc_def materialize_if_lazy_def
      param_copy_def set_obj_def expandable_def hB_def fsB_def T0_def tz_def lazy0_def)

text \<open>
  C2, as the code has it. A failure is not confined to its parameter: when the parameters
  before \<open>p\<close> in the order of \<open>parameters()\<close> resolve and resolving \<open>p\<close> raises,
  \<open>materialize\<close> raises that error at once. The parameters before \<open>p\<close> that have a
  \<open>_file_path\<close> are backed by a tensor; \<open>p\<close> and every parameter after it are what they
  were before the call.
\<close>

theorem materialize_stops_at_first_failure:
  assumes "parameters h m = pre @ p # post"
    and "materialize_loop T fs pre h = (Inr (), h1)"
    and "materialize_param T fs p h1 = (Inl e, h2)"
  shows "materialize T fs m h = (Inl e, h2) \<and> objs h2 = objs h1 \<and>
         (\<forall>q. q \<notin> set pre \<longrightarrow> objs h2 q = objs h q) \<and>
         (\<forall>q \<in> set pre. file_path (objs h q) \<noteq> None \<longrightarrow> (\<exists>t. data (objs h2 q) = Backed t))"
proof -
  have 1: "materialize T fs m h = (Inl e, h2)"
    using assms by (simp add: materialize_def materialize_loop_append)
  have 2: "objs h2 = objs h1"
    using materialize_param_frame[OF assms(3)] by simp
  have 3: "\<forall>q. q \<notin> set pre \<longrightarrow> objs h2 q = objs h q"
    using materialize_loop_frame[OF assms(2)] 2 by simp
  have 4: "\<forall>q \<in> set pre. file_path (objs h q) \<noteq> None \<longrightarrow> (\<exists>t. data (objs h2 q) = Backed t)"
  proof (intro ballI impI)
    fix q assume q: "q \<in> set pre" "file_path (objs h q) \<noteq> None"
    have "ready T fs h1 q" using materialize_loop_success[OF assms(2)] q(1) by simp
    moreover have "file_path (objs h1 q) = file_path (objs h q)"
      using materialize_loop_frame[OF assms(2)] by simp
    ultimately show "\<exists>t. data (objs h2 q) = Backed t"
      using q(2) 2 by (auto simp: ready_def split: option.splits sum.splits pstate.splits)
  qed
  from 1 2 3 4 show ?thesis by blast
qed

theorem materialize_stops_at_first_failure_witness:
  "parameters hB (Module 0 []) = [] @ 0 # [1] \<and>
   materialize_loop T0 fsB [] hB = (Inr (), hB) \<and>
   materialize_param T0 fsB 0 hB = (Inl FileNotFoundError, hB\<lparr>log := [Read (asc ''d/p0.w1'')]\<rparr>) \<and>
   materialize T0 fsB (Module 0 []) hB = (Inl FileNotFoundError, hB\<lparr>log := [Read (asc ''d/p0.w1'')]\<rparr>) \<and>
   objs (hB\<lparr>log := [Read (asc ''d/p0.w1'')]\<rparr>) 1 = objs hB 1"
proof -
  have a: "parameters hB (Module 0 []) = [] @ 0 # [1]" by (simp add: parameters_hB)
  have b: "materialize_loop T0 fsB [] hB = (Inr (), hB)" by simp
  have c: "materialize_param T0 fsB 0 hB = (Inl FileNotFoundError, hB\<lparr>log := [Read (asc ''d/p0.w1'')]\<rparr>)"
    by (simp add: materialize_param_def read_input_def
      read_torch_file_def torch_load_def open_read_def endswith_def asc_def hB_def fsB_def lazy0_def)
  from materialize_stops_at_first_failure[OF a b c] a b c show ?thesis by simp
qed

section \<open>The lazy parameter registry\<close>


subsection \<open>The size of a module tree\<close>

fun nodes :: "module \<Rightarrow> nat" and nodes_children :: "(pystr \<times> module option) list \<Rightarrow> nat" where
  "nodes (Module i cs) = Suc (nodes_children cs)"
| "nodes_children [] = 0"
| "nodes_children ((name, None) # cs) = nodes_children cs"
| "nodes_children ((name, Some m) # cs) = nodes m + nodes_children cs"

lemma named_modules_memo_nodes:
  "(p, c) \<in> set (fst (named_modules_memo memo prefix m)) \<Longrightarrow> c = m \<or> nodes c < nodes m"
  "(p, c) \<in> set (fst (named_modules_children memo prefix cs)) \<Longrightarrow> nodes c \<le> nodes_children cs"
proof (induction memo prefix m and memo prefix cs
    rule: named_modules_memo_named_modules_children.induct)
  case (1 memo prefix i cs)
  then show ?case by (auto split: if_splits prod.splits)
next
  case (2 memo prefix)
  then show ?case by simp
next
  case (3 memo prefix name cs)
  then show ?case by simp
next
  case (4 memo prefix name m cs)
  then show ?case by (fastforce split: prod.splits)
qed

lemma modules_nodes: "c \<in> set (modules m) \<Longrightarrow> c = m \<or> nodes c < nodes m"
  using named_modules_memo_nodes(1)[of _ c "[]" "[]" m]
  by (auto simp: modules_def named_modules_def)

lemma named_modules_nodes: "(p, c) \<in> set (named_modules m) \<Longrightarrow> c = m \<or> nodes c < nodes m"
  using named_modules_memo_nodes(1)[of p c "[]" "[]" m]
  by (auto simp: named_modules_def)

text \<open>The largest module of a list that is not the module \<open>i\<close> itself.\<close>

fun max_nodes :: "nat \<Rightarrow> module list \<Rightarrow> nat" where
  "max_nodes i [] = 0"
| "max_nodes i (c # cs) = (if mid c = i then max_nodes i cs else max (nodes c) (max_nodes i cs))"

lemma max_nodes_less:
  "\<forall>c \<in> set cs. mid c \<noteq> i \<longrightarrow> nodes c < n \<Longrightarrow> 0 < n \<Longrightarrow> max_nodes i cs < n"
  by (induction cs) auto

lemma max_nodes_modules: "max_nodes (mid m) (modules m) < nodes m"
proof (rule max_nodes_less)
  show "\<forall>c \<in> set (modules m). mid c \<noteq> mid m \<longrightarrow> nodes c < nodes m"
    using modules_nodes by blast
  show "0 < nodes m" by (cases m) simp
qed

lemma max_nodes_named_modules: "max_nodes (mid m) (map snd (named_modules m)) < nodes m"
  using max_nodes_modules by (simp add: modules_def)

subsection \<open>\<open>nullify\<close>\<close>









subsection \<open>Well-formed trees and heaps\<close>





subsection \<open>The names \<open>named_parameters\<close> yields\<close>












subsection \<open>One replacement\<close>








lemma dict_set_subset: "set (dict_set d k v) \<subseteq> insert (k, v) (set d)"
  by (induction d) (auto split: if_splits)






subsection \<open>The first loop of \<open>_nullify\<close>\<close>






subsection \<open>The recursion\<close>


subsection \<open>\<open>nullify\<close> on a shared module\<close>










subsection \<open>Annotating from a directory: \<open>load_state_dict_dir\<close>\<close>

text \<open>
  \<open>key in x\<close> for a string \<open>key\<close>, by the type \<open>x\<close> has at run time: a key of a dictionary,
  an element of a list, a substring of a string.
\<close>

fun is_substring :: "pystr \<Rightarrow> pystr \<Rightarrow> bool" where
  "is_substring k [] = (k = [])"
| "is_substring k (c # s) = (take (length k) (c # s) = k \<or> is_substring k s)"

definition json_contains :: "json \<Rightarrow> pystr \<Rightarrow> error + bool" where
  "json_contains x key =
     (case x of
        JDict d \<Rightarrow> Inr (key \<in> fst ` set d)
      | JList l \<Rightarrow> Inr (JStr key \<in> set l)
      | JStr s \<Rightarrow> Inr (is_substring key s)
      | _ \<Rightarrow> Inl TypeError)"

text \<open>\<open>{k: v for k, v in self.named_parameters() if v is not None}\<close>\<close>

definition dict_of :: "('k \<times> 'v) list \<Rightarrow> ('k \<times> 'v) list" where
  "dict_of xs = foldl (\<lambda>d (k, v). dict_set d k v) [] xs"

text \<open>The loop of \<open>_load_from_state_dict_dir\<close> over \<open>local_state.items()\<close>.\<close>

fun load_dir_loop ::
  "json \<Rightarrow> pystr \<Rightarrow> pystr \<Rightarrow> (pystr \<times> nat) list \<Rightarrow> 'a heap \<Rightarrow> (error + unit) \<times> 'a heap" where
  "load_dir_loop key_to_filename state_dict_dir prefix [] h = (Inr (), h)"
| "load_dir_loop key_to_filename state_dict_dir prefix ((name, param) # rest) h =
     (let key = prefix @ name in
      case json_contains key_to_filename key of
        Inl e \<Rightarrow> (Inl e, h)
      | Inr False \<Rightarrow> load_dir_loop key_to_filename state_dict_dir prefix rest h
      | Inr True \<Rightarrow>
          (case json_subscript key_to_filename key of
             Inl e \<Rightarrow> (Inl e, h)
           | Inr (JStr f) \<Rightarrow>
               load_dir_loop key_to_filename state_dict_dir prefix rest
                 (set_obj param ((objs h param)\<lparr>file_path := Some (join state_dict_dir f)\<rparr>) h)
           | Inr _ \<Rightarrow> (Inl TypeError, h)))"

definition load_from_state_dict_dir ::
  "json \<Rightarrow> pystr \<Rightarrow> pystr \<Rightarrow> module \<Rightarrow> 'a heap \<Rightarrow> (error + unit) \<times> 'a heap" where
  "load_from_state_dict_dir key_to_filename state_dict_dir prefix self h =
     load_dir_loop key_to_filename state_dict_dir prefix (dict_of (named_parameters h self)) h"

text \<open>
  The inner function \<open>load(module, key_to_filename, prefix='')\<close> of \<open>load_state_dict_dir\<close>
  and its loop over \<open>module.named_modules()\<close>. The recursive call is
  \<open>load(child, prefix + name + '.')\<close>: its second argument, a string, is bound to
  \<open>key_to_filename\<close>, and \<open>prefix\<close> is the default.
\<close>

function load_dir :: "pystr \<Rightarrow> module \<Rightarrow> json \<Rightarrow> pystr \<Rightarrow> 'a heap \<Rightarrow> (error + unit) \<times> 'a heap"
  and load_dir_children ::
    "pystr \<Rightarrow> module \<Rightarrow> pystr \<Rightarrow> (pystr \<times> module) list \<Rightarrow> 'a heap \<Rightarrow> (error + unit) \<times> 'a heap" where
  "load_dir state_dict_dir modul key_to_filename prefix h =
     (case load_from_state_dict_dir key_to_filename state_dict_dir prefix modul h of
        (Inl e, h') \<Rightarrow> (Inl e, h')
      | (Inr u, h') \<Rightarrow> load_dir_children state_dict_dir modul prefix (named_modules modul) h')"
| "load_dir_children state_dict_dir modul prefix [] h = (Inr (), h)"
| "load_dir_children state_dict_dir modul prefix ((name, child) # rest) h =
     (if mid child = mid modul then load_dir_children state_dict_dir modul prefix rest h
      else (case load_dir state_dict_dir child (JStr (prefix @ name @ asc ''.'')) [] h of
              (Inl e, h') \<Rightarrow> (Inl e, h')
            | (Inr u, h') \<Rightarrow> load_dir_children state_dict_dir modul prefix rest h'))"
  by pat_completeness auto
termination
proof (relation "measures
    [\<lambda>x. case x of Inl (d, m, j, p, h) \<Rightarrow> 2 * nodes m
          | Inr (d, m, p, cs, h) \<Rightarrow> 2 * max_nodes (mid m) (map snd cs) + 1,
     \<lambda>x. case x of Inl (d, m, j, p, h) \<Rightarrow> 0 | Inr (d, m, p, cs, h) \<Rightarrow> length cs]")
  fix state_dict_dir :: pystr and modul key_to_filename and prefix :: pystr
    and h :: "'a heap" and x :: "(error + unit) \<times> 'a heap" and u :: unit and h' :: "'a heap"
  show "(Inr (state_dict_dir, modul, prefix, named_modules modul, h'),
         Inl (state_dict_dir, modul, key_to_filename, prefix, h)) \<in> measures
    [\<lambda>x. case x of Inl (d, m, j, p, h) \<Rightarrow> 2 * nodes m
          | Inr (d, m, p, cs, h) \<Rightarrow> 2 * max_nodes (mid m) (map snd cs) + 1,
     \<lambda>x. case x of Inl (d, m, j, p, h) \<Rightarrow> 0 | Inr (d, m, p, cs, h) \<Rightarrow> length cs]"
    using max_nodes_named_modules[of modul] by simp
qed auto

declare load_dir.simps [simp del]

text \<open>\<open>load_state_dict_dir\<close>; \<open>os.path.realpath\<close> is the operating system's.\<close>

definition load_state_dict_dir ::
  "(pystr \<Rightarrow> pystr) \<Rightarrow> 'a filesystem \<Rightarrow> pystr \<Rightarrow> module \<Rightarrow> 'a heap \<Rightarrow> (error + unit) \<times> 'a heap" where
  "load_state_dict_dir realpath fs state_dict_dir self h =
     (case json_load fs (join state_dict_dir KEY_TO_FILENAME_JSON) of
        Inl e \<Rightarrow> (Inl e, h)
      | Inr key_to_filename \<Rightarrow> load_dir (realpath state_dict_dir) self key_to_filename [] h)"

subsection \<open>Loading from a mapping in memory: \<open>load_state_dict_low_memory\<close>\<close>

text \<open>\<open>state_dict.pop(key)\<close> leaves the mapping without the key.\<close>

definition dict_pop :: "('k \<times> 'v) list \<Rightarrow> 'k \<Rightarrow> ('k \<times> 'v) list" where
  "dict_pop d k = filter (\<lambda>(k', v). k' \<noteq> k) d"

text \<open>The loop of \<open>_load_from_state_dict_low_memory\<close> over \<open>local_state.items()\<close>.\<close>

fun low_memory_loop ::
  "'a torch \<Rightarrow> pystr \<Rightarrow> (pystr \<times> nat) list \<Rightarrow> (pystr \<times> 'a tensor) list \<Rightarrow> 'a heap
   \<Rightarrow> (error + unit) \<times> (pystr \<times> 'a tensor) list \<times> 'a heap" where
  "low_memory_loop T prefix [] state_dict h = (Inr (), state_dict, h)"
| "low_memory_loop T prefix ((name, param) # rest) state_dict h =
     (let key = prefix @ name in
      case map_of state_dict key of
        None \<Rightarrow> low_memory_loop T prefix rest state_dict h
      | Some input_param \<Rightarrow>
          (let state_dict = dict_pop state_dict key in
           case param_copy T param input_param (materialize_if_lazy T param input_param h) of
             (Inl e, h') \<Rightarrow> (Inl e, state_dict, h')
           | (Inr u, h') \<Rightarrow> low_memory_loop T prefix rest state_dict h'))"

definition load_from_state_dict_low_memory ::
  "'a torch \<Rightarrow> (pystr \<times> 'a tensor) list \<Rightarrow> pystr \<Rightarrow> module \<Rightarrow> 'a heap
   \<Rightarrow> (error + unit) \<times> (pystr \<times> 'a tensor) list \<times> 'a heap" where
  "load_from_state_dict_low_memory T state_dict prefix self h =
     low_memory_loop T prefix (dict_of (named_parameters h self)) state_dict h"

text \<open>The inner function \<open>load(module, prefix='')\<close>; \<open>state_dict\<close> is the one mapping of the call.\<close>

function load_low ::
    "'a torch \<Rightarrow> module \<Rightarrow> pystr \<Rightarrow> (pystr \<times> 'a tensor) list \<Rightarrow> 'a heap
     \<Rightarrow> (error + unit) \<times> (pystr \<times> 'a tensor) list \<times> 'a heap"
  and load_low_children ::
    "'a torch \<Rightarrow> module \<Rightarrow> pystr \<Rightarrow> (pystr \<times> module) list \<Rightarrow> (pystr \<times> 'a tensor) list \<Rightarrow> 'a heap
     \<Rightarrow> (error + unit) \<times> (pystr \<times> 'a tensor) list \<times> 'a heap" where
  "load_low T modul prefix state_dict h =
     (case load_from_state_dict_low_memory T state_dict prefix modul h of
        (Inl e, sd, h') \<Rightarrow> (Inl e, sd, h')
      | (Inr u, sd, h') \<Rightarrow> load_low_children T modul prefix (named_modules modul) sd h')"
| "load_low_children T modul prefix [] state_dict h = (Inr (), state_dict, h)"
| "load_low_children T modul prefix ((name, child) # rest) state_dict h =
     (if mid child = mid modul then load_low_children T modul prefix rest state_dict h
      else (case load_low T child (prefix @ name @ asc ''.'') state_dict h of
              (Inl e, sd, h') \<Rightarrow> (Inl e, sd, h')
            | (Inr u, sd, h') \<Rightarrow> load_low_children T modul prefix rest sd h'))"
  by pat_completeness auto
termination
proof (relation "measures
    [\<lambda>x. case x of Inl (T, m, p, sd, h) \<Rightarrow> 2 * nodes m
          | Inr (T, m, p, cs, sd, h) \<Rightarrow> 2 * max_nodes (mid m) (map snd cs) + 1,
     \<lambda>x. case x of Inl (T, m, p, sd, h) \<Rightarrow> 0 | Inr (T, m, p, cs, sd, h) \<Rightarrow> length cs]")
  fix T :: "'a torch" and modul and prefix :: pystr and state_dict :: "(pystr \<times> 'a tensor) list"
    and h :: "'a heap" and sd :: "(pystr \<times> 'a tensor) list" and h' :: "'a heap"
  show "(Inr (T, modul, prefix, named_modules modul, sd, h'),
         Inl (T, modul, prefix, state_dict, h)) \<in> measures
    [\<lambda>x. case x of Inl (T, m, p, sd, h) \<Rightarrow> 2 * nodes m
          | Inr (T, m, p, cs, sd, h) \<Rightarrow> 2 * max_nodes (mid m) (map snd cs) + 1,
     \<lambda>x. case x of Inl (T, m, p, sd, h) \<Rightarrow> 0 | Inr (T, m, p, cs, sd, h) \<Rightarrow> length cs]"
    using max_nodes_named_modules[of modul] by simp
qed auto

declare load_low.simps [simp del]

definition load_state_dict_low_memory ::
  "'a torch \<Rightarrow> (pystr \<times> 'a tensor) list \<Rightarrow> module \<Rightarrow> 'a heap
   \<Rightarrow> (error + unit) \<times> (pystr \<times> 'a tensor) list \<times> 'a heap" where
  "load_state_dict_low_memory T state_dict self h = load_low T self [] state_dict h"

subsection \<open>The parameters of \<open>local_state\<close> are distinct objects\<close>

lemma members_of_distinct:
  "members_of memo prefix sl = (r, memo') \<Longrightarrow>
   distinct (map snd r) \<and> snd ` set r \<inter> set memo = {} \<and> set memo' = set memo \<union> snd ` set r"
proof (induction memo prefix sl arbitrary: r memo' rule: members_of.induct)
  case (1 memo module_prefix)
  then show ?case by simp
next
  case (2 memo module_prefix k ms)
  then show ?case by simp
next
  case (3 memo module_prefix k v ms)
  show ?case
  proof (cases "v \<in> set memo")
    case True
    with 3 show ?thesis by simp
  next
    case False
    obtain r1 m1 where r1: "members_of (v # memo) module_prefix ms = (r1, m1)"
      by (cases "members_of (v # memo) module_prefix ms")
    from "3.IH"(2)[OF False r1] have
      "distinct (map snd r1)" "snd ` set r1 \<inter> set (v # memo) = {}"
      "set m1 = set (v # memo) \<union> snd ` set r1" by auto
    moreover from "3.prems" False r1 have "r = (qualify module_prefix k, v) # r1" "memo' = m1"
      by auto
    ultimately show ?thesis using False by auto
  qed
qed

lemma named_members_distinct:
  "distinct (map snd (named_members h memo ms)) \<and>
   snd ` set (named_members h memo ms) \<inter> set memo = {}"
proof (induction h memo ms rule: named_members.induct)
  case (1 h memo)
  then show ?case by simp
next
  case (2 h memo module_prefix m ms)
  obtain r memo' where r: "members_of memo module_prefix (slots h (mid m)) = (r, memo')"
    by (cases "members_of memo module_prefix (slots h (mid m))")
  note d = members_of_distinct[OF r]
  from "2.IH"[OF r[symmetric]] have
    i: "distinct (map snd (named_members h memo' ms))"
       "snd ` set (named_members h memo' ms) \<inter> set memo' = {}" by auto
  have "snd ` set r \<inter> snd ` set (named_members h memo' ms) = {}"
    using d i(2) by auto
  then show ?case using r d i by auto
qed

lemma dict_set_values: "snd ` set (dict_set d k v) \<subseteq> insert v (snd ` set d)"
  using dict_set_subset[of d k v] by force

lemma dict_set_distinct_values:
  "distinct (map snd d) \<Longrightarrow> v \<notin> snd ` set d \<Longrightarrow> distinct (map snd (dict_set d k v))"
proof (induction d)
  case Nil
  then show ?case by simp
next
  case (Cons a d)
  obtain k' v' where a: "a = (k', v')" by (cases a)
  show ?case
  proof (cases "k' = k")
    case True
    with Cons a show ?thesis by (auto simp: image_iff)
  next
    case False
    have "v' \<notin> snd ` set (dict_set d k v)"
      using dict_set_values[of d k v] Cons.prems a by (auto simp: image_iff)
    with Cons a False show ?thesis by (auto simp: image_iff)
  qed
qed

lemma foldl_dict_set_distinct:
  "distinct (map snd d) \<Longrightarrow> distinct (map snd xs) \<Longrightarrow> snd ` set d \<inter> snd ` set xs = {} \<Longrightarrow>
   distinct (map snd (foldl (\<lambda>d (k, v). dict_set d k v) d xs))"
proof (induction xs arbitrary: d)
  case Nil
  then show ?case by simp
next
  case (Cons x xs)
  obtain k v where x: "x = (k, v)" by (cases x)
  from Cons.prems(2) x have vx: "v \<notin> snd ` set xs" and dx: "distinct (map snd xs)" by auto
  from Cons.prems(3) x have vd: "v \<notin> snd ` set d" and dd: "snd ` set d \<inter> snd ` set xs = {}"
    by auto
  have 1: "distinct (map snd (dict_set d k v))"
    using dict_set_distinct_values[OF Cons.prems(1) vd] .
  have 2: "snd ` set (dict_set d k v) \<subseteq> insert v (snd ` set d)" by (rule dict_set_values)
  have 3: "snd ` set (dict_set d k v) \<inter> snd ` set xs = {}"
    using 2 vx dd by blast
  have "foldl (\<lambda>d (k, v). dict_set d k v) d (x # xs) =
      foldl (\<lambda>d (k, v). dict_set d k v) (dict_set d k v) xs"
    using x by simp
  then show ?case using Cons.IH[OF 1 dx 3] by simp
qed

lemma local_state_distinct: "distinct (map snd (dict_of (named_parameters h m)))"
proof -
  have "distinct (map snd (named_parameters h m))"
    using named_members_distinct[of h "[]" "named_modules m"] by (simp add: named_parameters_def)
  then show ?thesis
    unfolding dict_of_def by (intro foldl_dict_set_distinct) simp_all
qed

subsection \<open>A failing copy in the eager load\<close>

lemma param_copy_fail:
  "param_copy T p inp (materialize_if_lazy T p inp h) = (Inl e, h1) \<Longrightarrow>
   e = RuntimeError \<and> h1 = h \<and>
   (\<exists>t. data (objs h p) = Backed t \<and> \<not> expandable (shape inp) (shape t))"
  by (cases "data (objs h p)")
     (auto simp: param_copy_def materialize_if_lazy_def set_obj_def expandable_refl
       split: if_splits)

lemma map_of_dict_pop: "map_of (dict_pop d k) k' = (if k' = k then None else map_of d k')"
  by (induction d) (auto simp: dict_pop_def)

lemma low_memory_loop_fail:
  "distinct (map snd items) \<Longrightarrow> low_memory_loop T prefix items sd h = (Inl e, sd', h') \<Longrightarrow>
   \<exists>name param inp t. (name, param) \<in> set items \<and> map_of sd (prefix @ name) = Some inp \<and>
     map_of sd' (prefix @ name) = None \<and> data (objs h param) = Backed t \<and>
     \<not> expandable (shape inp) (shape t) \<and> e = RuntimeError \<and> objs h' param = objs h param"
proof (induction items arbitrary: sd h)
  case Nil
  then show ?case by simp
next
  case (Cons a rest)
  obtain n p where a: "a = (n, p)" by (cases a)
  let ?key = "prefix @ n"
  from Cons.prems(1) a have dr: "distinct (map snd rest)" and pn: "p \<notin> snd ` set rest" by auto
  show ?case
  proof (cases "map_of sd ?key")
    case None
    with Cons.prems(2) a have "low_memory_loop T prefix rest sd h = (Inl e, sd', h')" by simp
    from Cons.IH[OF dr this] show ?thesis by auto
  next
    case (Some inp)
    obtain r h1 where c: "param_copy T p inp (materialize_if_lazy T p inp h) = (r, h1)"
      by (cases "param_copy T p inp (materialize_if_lazy T p inp h)")
    show ?thesis
    proof (cases r)
      case (Inl e1)
      with Cons.prems(2) a Some c have eq: "e = e1" "sd' = dict_pop sd ?key" "h' = h1"
        by (simp_all add: Let_def)
      from param_copy_fail[OF c[unfolded Inl]] obtain t where
        "e1 = RuntimeError" "h1 = h" "data (objs h p) = Backed t"
        "\<not> expandable (shape inp) (shape t)" by blast
      then show ?thesis using eq Some a by (intro exI[of _ n] exI[of _ p] exI[of _ inp] exI[of _ t])
          (simp add: map_of_dict_pop)
    next
      case (Inr u)
      with Cons.prems(2) a Some c have
        l: "low_memory_loop T prefix rest (dict_pop sd ?key) h1 = (Inl e, sd', h')"
        by (simp add: Let_def)
      from Cons.IH[OF dr l] obtain name param inp' t where
        i: "(name, param) \<in> set rest" "map_of (dict_pop sd ?key) (prefix @ name) = Some inp'"
           "map_of sd' (prefix @ name) = None" "data (objs h1 param) = Backed t"
           "\<not> expandable (shape inp') (shape t)" "e = RuntimeError" "objs h' param = objs h1 param"
        by blast
      have "param \<noteq> p" using i(1) pn by force
      then have "objs h1 param = objs h param" using copy_after_lazy[OF c] by simp
      moreover have "map_of sd (prefix @ name) = Some inp'"
        using i(2) by (simp add: map_of_dict_pop split: if_splits)
      ultimately show ?thesis using i by (intro exI[of _ name] exI[of _ param] exI[of _ inp'] exI[of _ t]) simp
    qed
  qed
qed

section \<open>Properties of the two load paths\<close>


text \<open>
  Concrete inputs: a module with the parameter \<open>w\<close>, backed by a tensor of shape \<open>[4]\<close>; a
  root whose child \<open>w\<close> has the parameter \<open>w\<close>, and a directory whose manifest does
  not have the name \<open>w.w\<close>.
\<close>

definition hK :: "nat heap" where
  "hK = \<lparr>slots = (\<lambda>i. if i = 0 then [(asc ''w'', Some 0)] else []),
          objs = (\<lambda>p. \<lparr>data = Backed (tz 4), file_path = None\<rparr>),
          next_pid = 1, rng = 0, log = []\<rparr>"

definition tree_w :: module where
  "tree_w = Module 0 [(asc ''w'', Some (Module 5 []))]"

definition hW :: "nat heap" where
  "hW = \<lparr>slots = (\<lambda>i. if i = 5 then [(asc ''w'', Some 0)] else []),
          objs = (\<lambda>p. lazy0 None),
          next_pid = 1, rng = 0, log = []\<rparr>"

definition fsW :: "nat filesystem" where
  "fsW = \<lparr>dirs = {asc ''ckpt''},
          files = [asc ''ckpt/key_to_filename.json'' \<mapsto> JsonFile (JDict [(asc ''b'', JStr (asc ''p0.b''))]),
                   asc ''ckpt/p0.b'' \<mapsto> TorchFile (tz 2)]\<rparr>"


text \<open>
  C10. When the eager load of one module raises, it raises at a \<open>copy_\<close>: the key of some
  parameter of \<open>local_state\<close> was in the mapping, with a tensor that does not fit the tensor
  the parameter is backed by; the mapping that is left no longer has the key, and the
  parameter is what it was before the call.
\<close>

theorem low_memory_load_not_atomic:
  assumes "load_from_state_dict_low_memory T state_dict prefix self h = (Inl e, state_dict', h')"
  shows "\<exists>name param input_param t.
           (name, param) \<in> set (dict_of (named_parameters h self)) \<and>
           map_of state_dict (prefix @ name) = Some input_param \<and>
           map_of state_dict' (prefix @ name) = None \<and>
           data (objs h param) = Backed t \<and>
           \<not> expandable (shape input_param) (shape t) \<and>
           e = RuntimeError \<and> objs h' param = objs h param"
  using assms low_memory_loop_fail[OF local_state_distinct]
  unfolding load_from_state_dict_low_memory_def by blast

theorem low_memory_load_not_atomic_witness:
  "load_from_state_dict_low_memory T0 [(asc ''w'', tz 3)] [] (Module 0 []) hK =
     (Inl RuntimeError, [], hK) \<and>
   map_of [(asc ''w'', tz 3)] (asc ''w'') = Some (tz 3) \<and>
   data (objs hK 0) = Backed (tz 4) \<and>
   \<not> expandable (shape (tz 3)) (shape (tz 4 :: nat tensor))"
proof -
  have p: "dict_of (named_parameters hK (Module 0 [])) = [(asc ''w'', 0)]"
    by (simp add: dict_of_def named_parameters_def named_modules_def qualify_def hK_def)
  have e: "load_from_state_dict_low_memory T0 [(asc ''w'', tz 3)] [] (Module 0 []) hK =
     (Inl RuntimeError, [], hK)"
    unfolding load_from_state_dict_low_memory_def p
    by (simp add: dict_pop_def materialize_if_lazy_def param_copy_def expandable_def
        hK_def tz_def asc_def)
  from low_memory_load_not_atomic[OF e] e show ?thesis
    by (simp add: hK_def tz_def expandable_def asc_def)
qed


text \<open>
  C8, at an input where the code departs from it. The manifest of the directory has the
  name \<open>b\<close> only; the tree has the parameter \<open>w.w\<close>: a child named \<open>w\<close> with a parameter
  named \<open>w\<close>. The call for the root finds no name of the manifest and changes nothing. The
  call for the child is \<open>load(child, 'w.')\<close>: \<open>key_to_filename\<close> is the string \<open>'w.'\<close>, the
  key \<open>'w'\<close> is a substring of it, and \<open>key_to_filename[key]\<close> raises \<open>TypeError\<close>. The
  eager path, whose recursive call passes the prefix where the prefix is expected,
  returns on the same tree with a mapping that omits the name.
\<close>

theorem load_state_dict_dir_partial_manifest_raises:
  "named_parameters hW tree_w = [(asc ''w.w'', 0)] \<and>
   json_load fsW (join (asc ''ckpt'') KEY_TO_FILENAME_JSON) =
     Inr (JDict [(asc ''b'', JStr (asc ''p0.b''))]) \<and>
   load_from_state_dict_dir (JDict [(asc ''b'', JStr (asc ''p0.b''))]) (asc ''ckpt'') [] tree_w hW =
     (Inr (), hW) \<and>
   load_state_dict_dir (\<lambda>d. d) fsW (asc ''ckpt'') tree_w hW = (Inl TypeError, hW) \<and>
   load_state_dict_low_memory T0 [(asc ''b'', tz 2)] tree_w hW =
     (Inr (), [(asc ''b'', tz 2)], hW)"
proof -
  have np: "named_parameters hW tree_w = [(asc ''w.w'', 0)]"
    by (simp add: named_parameters_def named_modules_def qualify_def tree_w_def hW_def asc_def)
  have npc: "named_parameters hW (Module 5 []) = [(asc ''w'', 0)]"
    by (simp add: named_parameters_def named_modules_def qualify_def hW_def asc_def)
  have nm: "named_modules tree_w = [([], tree_w), (asc ''w'', Module 5 [])]"
    by (simp add: named_modules_def qualify_def tree_w_def)
  have nmc: "named_modules (Module 5 []) = [([], Module 5 [])]"
    by (simp add: named_modules_def)
  have jl: "json_load fsW (join (asc ''ckpt'') KEY_TO_FILENAME_JSON) =
     Inr (JDict [(asc ''b'', JStr (asc ''p0.b''))])"
    by (simp add: json_load_def open_read_def join_def KEY_TO_FILENAME_JSON_def fsW_def asc_def)
  have root: "load_from_state_dict_dir (JDict [(asc ''b'', JStr (asc ''p0.b''))]) (asc ''ckpt'') [] tree_w hW =
     (Inr (), hW)"
    unfolding load_from_state_dict_dir_def np
    by (simp add: dict_of_def json_contains_def asc_def)
  have child: "load_from_state_dict_dir (JStr (asc ''w.'')) (asc ''ckpt'') [] (Module 5 []) hW =
     (Inl TypeError, hW)"
    unfolding load_from_state_dict_dir_def npc
    by (simp add: dict_of_def json_contains_def json_subscript_def asc_def)
  have m: "mid (Module 5 []) \<noteq> mid tree_w" by (simp add: tree_w_def)
  have cat: "asc ''w'' @ asc ''.'' = asc ''w.''" by (simp add: asc_def)
  have ldc: "load_dir (asc ''ckpt'') (Module 5 []) (JStr (asc ''w.'')) [] hW = (Inl TypeError, hW)"
    by (simp add: load_dir.simps[of _ "Module 5 []"] child)
  have ld: "load_dir (asc ''ckpt'') tree_w (JDict [(asc ''b'', JStr (asc ''p0.b''))]) [] hW =
     (Inl TypeError, hW)"
    using m by (simp add: load_dir.simps[of _ tree_w] root nm cat ldc)
  have lsd: "load_state_dict_dir (\<lambda>d. d) fsW (asc ''ckpt'') tree_w hW = (Inl TypeError, hW)"
    by (simp add: load_state_dict_dir_def jl ld)
  have lroot: "load_from_state_dict_low_memory T0 [(asc ''b'', tz 2)] [] tree_w hW =
      (Inr (), [(asc ''b'', tz 2)], hW)"
    unfolding load_from_state_dict_low_memory_def np
    by (simp add: dict_of_def asc_def)
  have lchild: "load_from_state_dict_low_memory T0 [(asc ''b'', tz 2)] (asc ''w.'') (Module 5 []) hW =
      (Inr (), [(asc ''b'', tz 2)], hW)"
    unfolding load_from_state_dict_low_memory_def npc
    by (simp add: dict_of_def asc_def)
  have llc: "load_low T0 (Module 5 []) (asc ''w.'') [(asc ''b'', tz 2)] hW =
      (Inr (), [(asc ''b'', tz 2)], hW)"
    by (simp add: load_low.simps[of _ "Module 5 []"] lchild nmc)
  have low: "load_state_dict_low_memory T0 [(asc ''b'', tz 2)] tree_w hW =
     (Inr (), [(asc ''b'', tz 2)], hW)"
    using m unfolding load_state_dict_low_memory_def
    by (simp add: load_low.simps[of _ tree_w] lroot nm cat llc)
  from np jl root lsd low show ?thesis by simp
qed

end
